theory Spec2Isabelle
  imports Complex_Main "HOL-Library.Sublist"
begin

section \<open>Python strings\<close>

text \<open>
  A Python \<open>str\<close> is a sequence of Unicode code points, so a string is a list of naturals
  and \<open>length\<close> counts what \<open>len\<close> counts. Literals are written through \<open>ustr\<close>, which
  reads an ASCII literal character by character.
\<close>

type_synonym codepoint = nat
type_synonym ustr = "codepoint list"

definition ustr :: "string \<Rightarrow> ustr" where
  "ustr s = map of_char s"

definition space :: codepoint where
  "space = 32"

definition newline :: codepoint where
  "newline = 10"

text \<open>
  The characters \<open>str.isspace\<close>, \<open>str.strip\<close>, \<open>str.split\<close> and the regular expression
  class \<open>\s\<close> treat as whitespace: U+0009..U+000D, U+001C..U+0020, U+0085, U+00A0, U+1680,
  U+2000..U+200A, U+2028, U+2029, U+202F, U+205F and U+3000.
\<close>

definition isspace :: "codepoint \<Rightarrow> bool" where
  "isspace c = ((9 \<le> c \<and> c \<le> 13) \<or> (28 \<le> c \<and> c \<le> 32) \<or> c = 133 \<or> c = 160
     \<or> c = 5760 \<or> (8192 \<le> c \<and> c \<le> 8202) \<or> c = 8232 \<or> c = 8233 \<or> c = 8239
     \<or> c = 8287 \<or> c = 12288)"

text \<open>\<open>s.strip()\<close>: leading and trailing whitespace removed.\<close>

definition strip :: "ustr \<Rightarrow> ustr" where
  "strip s = rev (dropWhile isspace (rev (dropWhile isspace s)))"

text \<open>
  Slice bounds as Python adjusts them for a sequence of length \<open>n\<close>: a negative bound counts
  from the end and is clamped at 0, a bound beyond the end is clamped at \<open>n\<close>.
\<close>

definition adjust_index :: "nat \<Rightarrow> int \<Rightarrow> nat" where
  "adjust_index n i = (if i < 0 then nat (max (i + int n) 0) else min (nat i) n)"

text \<open>\<open>s[i:j]\<close>.\<close>

definition slice :: "'a list \<Rightarrow> int \<Rightarrow> int \<Rightarrow> 'a list" where
  "slice s i j =
     (let a = adjust_index (length s) i; b = adjust_index (length s) j
      in take (b - a) (drop a s))"

text \<open>
  \<open>s.rfind(c, i, j)\<close> for a one-character needle: the highest index in \<open>s[i:j]\<close> that holds
  \<open>c\<close>, or \<open>-1\<close>.
\<close>

definition rfind :: "ustr \<Rightarrow> codepoint \<Rightarrow> int \<Rightarrow> int \<Rightarrow> int" where
  "rfind s c i j =
     (let a = adjust_index (length s) i; b = adjust_index (length s) j
      in case List.find (\<lambda>k. s ! k = c) (rev [a..<b]) of
           None \<Rightarrow> - 1
         | Some k \<Rightarrow> int k)"

section \<open>The chunker: \<open>SimpleDocumentProcessor.create_chunks\<close>\<close>

record chunk =
  id_chunk :: int
  text_chunk :: ustr
  start_pos :: int
  end_pos :: int
  length_chunk :: int

text \<open>
  The end of the window that starts at \<open>start\<close>: \<open>start + chunk_size\<close>, moved back to the
  last space of the window when the window ends before the text does and that space lies
  strictly after \<open>start\<close>.
\<close>

definition window_end :: "int \<Rightarrow> ustr \<Rightarrow> int \<Rightarrow> int" where
  "window_end chunk_size text start =
     (let end = start + chunk_size
      in if end < int (length text)
         then (let last_space = rfind text space start end
               in if last_space > start then last_space else end)
         else end)"

text \<open>
  The \<open>while\<close> loop of \<open>create_chunks\<close>. The loop has no bound of its own, so the model
  counts iterations down from a fuel; \<open>None\<close> means the fuel ran out before the loop
  left. The arguments after the text are the loop variables \<open>start\<close>, \<open>chunk_id\<close> and
  \<open>chunks\<close>.
\<close>

fun create_chunks_loop ::
  "nat \<Rightarrow> int \<Rightarrow> int \<Rightarrow> ustr \<Rightarrow> int \<Rightarrow> int \<Rightarrow> chunk list \<Rightarrow> chunk list option" where
  "create_chunks_loop 0 chunk_size chunk_overlap text start chunk_id chunks = None"
| "create_chunks_loop (Suc fuel) chunk_size chunk_overlap text start chunk_id chunks =
     (if start < int (length text) then
        (let end = window_end chunk_size text start;
             chunk_text = strip (slice text start end);
             chunks' = (if chunk_text \<noteq> []
                        then chunks @ [\<lparr>id_chunk = chunk_id, text_chunk = chunk_text,
                                         start_pos = start, end_pos = end,
                                         length_chunk = int (length chunk_text)\<rparr>]
                        else chunks);
             chunk_id' = (if chunk_text \<noteq> [] then chunk_id + 1 else chunk_id);
             start' = end - chunk_overlap
         in if start' \<ge> int (length text) then Some chunks'
            else create_chunks_loop fuel chunk_size chunk_overlap text start' chunk_id' chunks')
      else Some chunks)"

definition create_chunks :: "nat \<Rightarrow> int \<Rightarrow> int \<Rightarrow> ustr \<Rightarrow> chunk list option" where
  "create_chunks fuel chunk_size chunk_overlap text =
     create_chunks_loop fuel chunk_size chunk_overlap text 0 0 []"

declare create_chunks_loop.simps [simp del]

section \<open>Exceptions\<close>

text \<open>
  A raised exception is a value: its class and its message. \<open>str_exn\<close> is \<open>str(e)\<close>.
\<close>

datatype py_exn =
  ValueError ustr
| IndexError ustr
| AttributeError ustr
| RequestException ustr
| OSError ustr
| Exception ustr

fun str_exn :: "py_exn \<Rightarrow> ustr" where
  "str_exn (ValueError m) = m"
| "str_exn (IndexError m) = m"
| "str_exn (AttributeError m) = m"
| "str_exn (RequestException m) = m"
| "str_exn (OSError m) = m"
| "str_exn (Exception m) = m"

section \<open>Text cleaning: \<open>SimpleDocumentProcessor.clean_text\<close>\<close>

text \<open>
  \<open>re.sub(r'X+', r, s)\<close> for a character class \<open>X\<close> and a one-character replacement
  \<open>r\<close>: every maximal run of characters of the class becomes one \<open>r\<close>.
\<close>

function sub_runs :: "(codepoint \<Rightarrow> bool) \<Rightarrow> codepoint \<Rightarrow> ustr \<Rightarrow> ustr" where
  "sub_runs p r [] = []"
| "sub_runs p r (c # cs) =
     (if p c then r # sub_runs p r (dropWhile p cs) else c # sub_runs p r cs)"
  by pat_completeness auto
termination
  by (relation "measure (\<lambda>(p, r, s). length s)")
     (auto simp: length_dropWhile_le le_imp_less_Suc)

text \<open>
  The class \<open>\w\<close> of a Unicode pattern: the alphanumeric characters and the underscore.
  Below U+0080 these are the ASCII digits and letters; which code points beyond are
  alphanumeric is the Unicode table, the parameter \<open>uni_alnum\<close>.
\<close>

definition isword :: "(codepoint \<Rightarrow> bool) \<Rightarrow> codepoint \<Rightarrow> bool" where
  "isword uni_alnum c =
     (if c < 128
      then (48 \<le> c \<and> c \<le> 57) \<or> (65 \<le> c \<and> c \<le> 90) \<or> (97 \<le> c \<and> c \<le> 122) \<or> c = 95
      else uni_alnum c)"

text \<open>The characters the class \<open>[^\w\s\.\,\;\:\!\?\-\(\)]\<close> does not match, which are kept.\<close>

definition kept :: "(codepoint \<Rightarrow> bool) \<Rightarrow> codepoint \<Rightarrow> bool" where
  "kept uni_alnum c = (isword uni_alnum c \<or> isspace c \<or> c \<in> set (ustr ''.,;:!?-()''))"

definition clean_text :: "(codepoint \<Rightarrow> bool) \<Rightarrow> ustr \<Rightarrow> ustr" where
  "clean_text uni_alnum text =
     (let text1 = sub_runs isspace space text;
          text2 = sub_runs (\<lambda>c. c = newline) newline text1;
          text3 = filter (kept uni_alnum) text2
      in strip text3)"

text \<open>A run of two or more consecutive whitespace characters occurs in the string.\<close>

fun ws_run :: "ustr \<Rightarrow> bool" where
  "ws_run (a # b # s) = ((isspace a \<and> isspace b) \<or> ws_run (b # s))"
| "ws_run s = False"

text \<open>The word table restricted to ASCII: no code point from U+0080 on is alphanumeric.\<close>

definition ascii_alnum_only :: "codepoint \<Rightarrow> bool" where
  "ascii_alnum_only c = False"

section \<open>The lexical retriever: \<open>SimpleDocumentQAProcessor.simple_text_search\<close>\<close>

text \<open>\<open>s.split()\<close>: the maximal runs of non-whitespace characters, in order.\<close>

function split :: "ustr \<Rightarrow> ustr list" where
  "split s =
     (case dropWhile isspace s of
        [] \<Rightarrow> []
      | c # cs \<Rightarrow> takeWhile (\<lambda>x. \<not> isspace x) (c # cs)
                   # split (dropWhile (\<lambda>x. \<not> isspace x) (c # cs)))"
  by pat_completeness auto
termination
proof (relation "measure length")
  show "wf (measure length)" by simp
next
  fix s :: ustr and c cs
  assume d: "dropWhile isspace s = c # cs"
  have "\<not> isspace c" using d hd_dropWhile [of isspace s] by auto
  then have "length (dropWhile (\<lambda>x. \<not> isspace x) (c # cs)) \<le> length cs"
    by (simp add: length_dropWhile_le)
  moreover have "length (c # cs) \<le> length s"
    using length_dropWhile_le [of isspace s] d by simp
  ultimately show "(dropWhile (\<lambda>x. \<not> isspace x) (c # cs), s) \<in> measure length"
    by simp
qed

declare split.simps [simp del]

text \<open>
  \<open>s.lower()\<close>. On a string of ASCII characters it maps \<open>A..Z\<close> to \<open>a..z\<close>; the case
  mapping of a string with other characters is the Unicode table, the parameter
  \<open>uni_lower\<close>.
\<close>

definition ascii_lower :: "codepoint \<Rightarrow> codepoint" where
  "ascii_lower c = (if 65 \<le> c \<and> c \<le> 90 then c + 32 else c)"

definition lower :: "(ustr \<Rightarrow> ustr) \<Rightarrow> ustr \<Rightarrow> ustr" where
  "lower uni_lower s = (if list_all (\<lambda>c. c < 128) s then map ascii_lower s else uni_lower s)"

text \<open>
  The score of one chunk, the body of the \<open>for\<close> loop up to the test \<open>score > 0\<close>. A
  Python float is a rational here, and \<open>round_float\<close> is the rounding of an exact
  result to the nearest float: the quotient of the two counts and the sum with 0.5 are
  each rounded once. \<open>query.lower() in chunk_text\<close> is the substring test.
\<close>

definition score_chunk :: "(rat \<Rightarrow> rat) \<Rightarrow> (ustr \<Rightarrow> ustr) \<Rightarrow> ustr \<Rightarrow> chunk \<Rightarrow> rat" where
  "score_chunk round_float uni_lower query c =
     (let query_words = set (split (lower uni_lower query));
          chunk_text = lower uni_lower (text_chunk c);
          chunk_words = set (split chunk_text);
          common_words = query_words \<inter> chunk_words;
          score = (if query_words \<noteq> {}
                   then round_float (of_nat (card common_words) / of_nat (card query_words))
                   else 0)
      in if sublist (lower uni_lower query) chunk_text then round_float (score + 1 / 2)
         else score)"

record scored_chunk =
  chunk_scored :: chunk
  score :: rat
  text_scored :: ustr

text \<open>The \<open>for\<close> loop over the chunks: a chunk is appended when its score is positive.\<close>

fun scored_chunks :: "(rat \<Rightarrow> rat) \<Rightarrow> (ustr \<Rightarrow> ustr) \<Rightarrow> ustr \<Rightarrow> chunk list \<Rightarrow> scored_chunk list" where
  "scored_chunks round_float uni_lower query [] = []"
| "scored_chunks round_float uni_lower query (c # cs) =
     (let s = score_chunk round_float uni_lower query c
      in if s > 0
         then \<lparr>chunk_scored = c, score = s, text_scored = text_chunk c\<rparr>
                # scored_chunks round_float uni_lower query cs
         else scored_chunks round_float uni_lower query cs)"

text \<open>
  \<open>xs.sort(key=k, reverse=True)\<close>: the list is reversed, sorted stably by ascending
  key, and reversed again.
\<close>

definition sort_reverse :: "('a \<Rightarrow> 'k::linorder) \<Rightarrow> 'a list \<Rightarrow> 'a list" where
  "sort_reverse k xs = rev (sort_key k (rev xs))"

definition simple_text_search ::
  "(rat \<Rightarrow> rat) \<Rightarrow> (ustr \<Rightarrow> ustr) \<Rightarrow> chunk list \<Rightarrow> ustr \<Rightarrow> int \<Rightarrow> scored_chunk list" where
  "simple_text_search round_float uni_lower document_chunks query top_k =
     (if document_chunks = [] then []
      else slice (sort_reverse score (scored_chunks round_float uni_lower query document_chunks))
             0 top_k)"

text \<open>Float arithmetic in which every result is representable, so nothing is rounded.\<close>

definition exact :: "rat \<Rightarrow> rat" where
  "exact x = x"

text \<open>A case mapping that leaves strings with non-ASCII characters as they are.\<close>

definition ascii_lower_only :: "ustr \<Rightarrow> ustr" where
  "ascii_lower_only s = s"

section \<open>The completion client: \<open>AIAnswerGenerator\<close>\<close>

text \<open>
  The fields of the object that the rotation and the retry loop read. \<open>base_url\<close> and
  \<open>timeout\<close> are constants of the request and do not appear.
\<close>

record client =
  api_keys :: "ustr list"
  model :: ustr
  current_key_index :: int
  max_retries :: nat

text \<open>\<open>__init__\<close>: the pool must not be empty.\<close>

definition AIAnswerGenerator_init :: "ustr list \<Rightarrow> ustr \<Rightarrow> py_exn + client" where
  "AIAnswerGenerator_init keys model_name =
     (if keys = [] then Inl (ValueError (ustr ''At least one API key must be provided''))
      else Inr \<lparr>api_keys = keys, model = model_name, current_key_index = 0, max_retries = 3\<rparr>)"

text \<open>
  \<open>get_next_api_key\<close>. Indexing a list of length \<open>n\<close> raises \<open>IndexError\<close> outside
  \<open>-n \<le> i < n\<close> and counts a negative index from the end; the remainder has the sign of
  the divisor, as \<open>mod\<close> on \<open>int\<close> has.
\<close>

definition get_next_api_key :: "client \<Rightarrow> py_exn + (ustr \<times> client)" where
  "get_next_api_key c =
     (let n = int (length (api_keys c)); i = current_key_index c
      in if i < - n \<or> n \<le> i then Inl (IndexError (ustr ''list index out of range''))
         else (let key = api_keys c ! nat (if i < 0 then i + n else i)
               in Inr (key, c\<lparr>current_key_index := (i + 1) mod n\<rparr>)))"

text \<open>
  What one \<open>requests.post\<close> brings: a response with its status code and, for the parse of
  its body (\<open>response.json()\<close> down to the stripped content), the content or the
  exception the parse raises; or an exception raised by the request itself.
\<close>

datatype http_result =
  Response int "py_exn + ustr"
| Raised py_exn

text \<open>What the client does to the world: a request sent with a key, a sleep in seconds.\<close>

datatype event = Post ustr | Sleep nat

text \<open>
  The \<open>for attempt in range(self.max_retries)\<close> loop, over the attempt numbers that are
  left. \<open>http attempt\<close> is what the request of that attempt brings. Both \<open>except\<close>
  clauses sleep one second and go on with the next attempt; they catch what
  \<open>get_next_api_key\<close>, the request and the parse of the body raise.
\<close>

fun attempts ::
  "(nat \<Rightarrow> http_result) \<Rightarrow> nat list \<Rightarrow> client \<Rightarrow> event list
     \<Rightarrow> ustr option \<times> event list \<times> client" where
  "attempts http [] c trace = (None, trace, c)"
| "attempts http (attempt # rest) c trace =
     (case get_next_api_key c of
        Inl e \<Rightarrow> attempts http rest c (trace @ [Sleep 1])
      | Inr (api_key, c') \<Rightarrow>
          (case http attempt of
             Raised e \<Rightarrow> attempts http rest c' (trace @ [Post api_key, Sleep 1])
           | Response status_code body \<Rightarrow>
               if status_code = 200 then
                 (case body of
                    Inl e \<Rightarrow> attempts http rest c' (trace @ [Post api_key, Sleep 1])
                  | Inr content \<Rightarrow> (Some (strip content), trace @ [Post api_key], c'))
               else if status_code \<in> set [429, 500, 502, 503]
               then attempts http rest c' (trace @ [Post api_key, Sleep (2 ^ attempt)])
               else attempts http rest c' (trace @ [Post api_key])))"

text \<open>
  \<open>generate_answer\<close>: the answer or \<open>None\<close>, what was sent and slept, and the client with
  its cursor moved. The question and the context only shape the request body.
\<close>

definition generate_answer ::
  "(nat \<Rightarrow> http_result) \<Rightarrow> client \<Rightarrow> ustr option \<times> event list \<times> client" where
  "generate_answer http c = attempts http [0..<max_retries c] c []"

text \<open>The keys of the requests of a trace, and its sleeps, each in order.\<close>

fun posts :: "event list \<Rightarrow> ustr list" where
  "posts [] = []"
| "posts (Post k # es) = k # posts es"
| "posts (Sleep n # es) = posts es"

fun sleeps :: "event list \<Rightarrow> nat list" where
  "sleeps [] = []"
| "sleeps (Post k # es) = sleeps es"
| "sleeps (Sleep n # es) = n # sleeps es"

text \<open>
  Calls of \<open>generate_answer\<close> one after the other on the same client, each with what its
  requests bring; the result and the trace of every call, and the client at the end.
\<close>

fun consecutive_calls ::
  "(nat \<Rightarrow> http_result) list \<Rightarrow> client \<Rightarrow> (ustr option \<times> event list) list \<times> client" where
  "consecutive_calls [] c = ([], c)"
| "consecutive_calls (http # rest) c =
     (case generate_answer http c of
        (answer, trace, c') \<Rightarrow>
          (case consecutive_calls rest c' of
             (results, c'') \<Rightarrow> ((answer, trace) # results, c'')))"

text \<open>The rotation cursor points into the pool.\<close>

definition cursor_in_range :: "client \<Rightarrow> bool" where
  "cursor_in_range c =
     (0 \<le> current_key_index c \<and> current_key_index c < int (length (api_keys c)))"

text \<open>A service that answers every request of a call the same way.\<close>

definition always :: "http_result \<Rightarrow> nat \<Rightarrow> http_result" where
  "always r attempt = r"

text \<open>
  A service that answers the requests of a call from a list, one entry per attempt; once
  the list is used up the connection fails.
\<close>

definition replies :: "http_result list \<Rightarrow> nat \<Rightarrow> http_result" where
  "replies rs attempt =
     (if attempt < length rs then rs ! attempt else Raised (RequestException []))"

text \<open>The keys of all requests of a sequence of calls, in the order they were sent.\<close>

definition sent :: "(ustr option \<times> event list) list \<Rightarrow> ustr list" where
  "sent rs = concat (map (\<lambda>r. posts (snd r)) rs)"

text \<open>The client \<open>AIAnswerGenerator(["k1", "k2"], "m")\<close> as the constructor leaves it.\<close>

definition fresh_client :: client where
  "fresh_client =
     \<lparr>api_keys = [ustr ''k1'', ustr ''k2''], model = ustr ''m'',
      current_key_index = 0, max_retries = 3\<rparr>"

text \<open>
  The entry \<open>simple_text_search\<close> appends for a chunk, and the chunks it appends one for:
  those with a positive score.
\<close>

definition entry :: "(rat \<Rightarrow> rat) \<Rightarrow> (ustr \<Rightarrow> ustr) \<Rightarrow> ustr \<Rightarrow> chunk \<Rightarrow> scored_chunk" where
  "entry round_float uni_lower query c =
     \<lparr>chunk_scored = c, score = score_chunk round_float uni_lower query c,
      text_scored = text_chunk c\<rparr>"

definition matching :: "(rat \<Rightarrow> rat) \<Rightarrow> (ustr \<Rightarrow> ustr) \<Rightarrow> ustr \<Rightarrow> chunk list \<Rightarrow> chunk list" where
  "matching round_float uni_lower query cs =
     filter (\<lambda>c. 0 < score_chunk round_float uni_lower query c) cs"

text \<open>A chunk with the given id and text, for a window that starts at offset 0.\<close>

definition chunk_of :: "int \<Rightarrow> string \<Rightarrow> chunk" where
  "chunk_of i s =
     \<lparr>id_chunk = i, text_chunk = ustr s, start_pos = 0, end_pos = int (length s),
      length_chunk = int (length s)\<rparr>"

section \<open>The pipeline: \<open>SimpleDocumentQAProcessor\<close>\<close>

type_synonym bytes = "nat list"

text \<open>
  What the pipeline takes from outside: the file system (\<open>open(pdf_path, 'rb').read()\<close>),
  the PDF library (the body of the \<open>try\<close> in \<open>extract_text_from_pdf\<close>: the text of all
  pages, or the exception raised on the way), the Unicode tables, the rounding of
  floats, and what the requests of the call for the k-th question bring.
\<close>

record world =
  read_file :: "ustr \<Rightarrow> py_exn + bytes"
  pdf_reader :: "bytes \<Rightarrow> py_exn + ustr"
  alnum_table :: "codepoint \<Rightarrow> bool"
  lower_table :: "ustr \<Rightarrow> ustr"
  float_rounding :: "rat \<Rightarrow> rat"
  http_service :: "nat \<Rightarrow> nat \<Rightarrow> http_result"

text \<open>
  The fields of the object; \<open>chunk_size_proc\<close> and \<open>chunk_overlap_proc\<close> are those of its
  \<open>document_processor\<close>.
\<close>

record processor =
  chunk_size_proc :: int
  chunk_overlap_proc :: int
  ai_generator :: "client option"
  ai_enabled :: bool
  document_chunks :: "chunk list"
  document_text :: ustr

text \<open>
  \<open>__init__\<close>, from the keys found in the environment. \<open>AIAnswerGenerator\<close> is built when
  there is a key; an exception it raises is caught and leaves the generator off.
\<close>

definition SimpleDocumentQAProcessor_init :: "ustr list \<Rightarrow> processor" where
  "SimpleDocumentQAProcessor_init env_keys =
     (let generator =
            (if env_keys \<noteq> []
             then (case AIAnswerGenerator_init env_keys (ustr ''provider-2/gpt-4o-mini'') of
                     Inl e \<Rightarrow> None
                   | Inr c \<Rightarrow> Some c)
             else None)
      in \<lparr>chunk_size_proc = 1000, chunk_overlap_proc = 100, ai_generator = generator,
          ai_enabled = (generator \<noteq> None), document_chunks = [], document_text = []\<rparr>)"

text \<open>\<open>extract_text_from_pdf\<close>: whatever is raised is raised again as \<open>Exception\<close>.\<close>

definition extract_text_from_pdf :: "world \<Rightarrow> bytes \<Rightarrow> py_exn + ustr" where
  "extract_text_from_pdf w pdf_content =
     (case pdf_reader w pdf_content of
        Inl e \<Rightarrow> Inl (Exception (ustr ''Error extracting text from PDF: '' @ str_exn e))
      | Inr t \<Rightarrow> Inr t)"

record doc_result =
  success_doc :: bool
  message_doc :: ustr
  chunks_count :: int
  total_characters :: int

text \<open>
  \<open>process_document\<close>. It returns when \<open>create_chunks\<close> does; \<open>None\<close> is a chunker that
  has not returned within the fuel.
\<close>

definition process_document ::
  "nat \<Rightarrow> world \<Rightarrow> processor \<Rightarrow> bytes \<Rightarrow> (doc_result \<times> processor) option" where
  "process_document fuel w p pdf_content =
     (case extract_text_from_pdf w pdf_content of
        Inl e \<Rightarrow>
          Some (\<lparr>success_doc = False,
                 message_doc = ustr ''Error processing document: '' @ str_exn e,
                 chunks_count = 0, total_characters = 0\<rparr>, p)
      | Inr raw_text \<Rightarrow>
          (let p1 = p\<lparr>document_text := clean_text (alnum_table w) raw_text\<rparr>
           in case create_chunks fuel (chunk_size_proc p1) (chunk_overlap_proc p1)
                     (document_text p1) of
                None \<Rightarrow> None
              | Some chunks \<Rightarrow>
                  (let p2 = p1\<lparr>document_chunks := chunks\<rparr>
                   in Some (\<lparr>success_doc = True,
                             message_doc = ustr ''Document processed successfully'',
                             chunks_count = int (length (document_chunks p2)),
                             total_characters = int (length (document_text p2))\<rparr>, p2))))"

record answer_result =
  success_ans :: bool
  answer_ans :: ustr
  error_ans :: "ustr option"

text \<open>
  \<open>answer_question\<close>, with what the requests of its call to \<open>generate_answer\<close> bring. A
  generator that is \<open>None\<close> raises \<open>AttributeError\<close>, which the \<open>except\<close> clause turns into
  an answer; an answer that is \<open>None\<close> or the empty string is not an answer.
\<close>

definition answer_question ::
  "(nat \<Rightarrow> http_result) \<Rightarrow> world \<Rightarrow> processor \<Rightarrow> ustr \<Rightarrow> answer_result \<times> processor" where
  "answer_question http w p question =
     (if document_chunks p = [] then
        (\<lparr>success_ans = False,
          answer_ans =
            ustr ''No document has been processed yet. Please upload a document first.'',
          error_ans = None\<rparr>, p)
      else
        (let relevant_chunks =
               simple_text_search (float_rounding w) (lower_table w) (document_chunks p)
                 question 3
         in if relevant_chunks = [] then
              (\<lparr>success_ans = False,
                answer_ans = ustr (''I could not find relevant information in the document ''
                                   @ ''to answer your question.''),
                error_ans = None\<rparr>, p)
            else
              (case ai_generator p of
                 None \<Rightarrow>
                   (\<lparr>success_ans = False,
                     answer_ans = ustr ''Error processing question: ''
                       @ str_exn (AttributeError
                           (ustr ([CHR 0x27] @ ''NoneType'' @ [CHR 0x27]
                                  @ '' object has no attribute ''
                                  @ [CHR 0x27] @ ''generate_answer'' @ [CHR 0x27]))),
                     error_ans = None\<rparr>, p)
               | Some c \<Rightarrow>
                   (case generate_answer http c of
                      (ai_answer, trace, c') \<Rightarrow>
                        (if ai_answer \<noteq> None \<and> ai_answer \<noteq> Some []
                         then (\<lparr>success_ans = True, answer_ans = the ai_answer,
                                 error_ans = None\<rparr>, p\<lparr>ai_generator := Some c'\<rparr>)
                         else (\<lparr>success_ans = False,
                                 answer_ans = ustr ''Failed to generate answer using AI.'',
                                 error_ans = Some (ustr ''AI generator returned None'')\<rparr>,
                               p\<lparr>ai_generator := Some c'\<rparr>))))))"

text \<open>
  The \<open>for question in questions\<close> loop of \<open>process_document_and_answer\<close>; \<open>k\<close> counts
  the questions answered so far.
\<close>

fun answer_all ::
  "world \<Rightarrow> nat \<Rightarrow> ustr list \<Rightarrow> processor \<Rightarrow> ustr list \<Rightarrow> ustr list \<times> processor" where
  "answer_all w k [] p answers = (answers, p)"
| "answer_all w k (question # rest) p answers =
     (case answer_question (http_service w k) w p question of
        (result, p') \<Rightarrow>
          answer_all w (Suc k) rest p'
            (answers @
               [if success_ans result then answer_ans result
                else ustr ''Error: '' @ (case error_ans result of
                                           Some e \<Rightarrow> e
                                         | None \<Rightarrow> ustr ''Failed to generate answer'')]))"

text \<open>Truth of an optional string, byte string or list: not \<open>None\<close> and not empty.\<close>

definition truthy :: "'a list option \<Rightarrow> bool" where
  "truthy x = (case x of None \<Rightarrow> False | Some v \<Rightarrow> v \<noteq> [])"

fun contents :: "'a list option \<Rightarrow> 'a list" where
  "contents None = []"
| "contents (Some v) = v"

text \<open>
  The head of the \<open>try\<close> block of \<open>process_document_and_answer\<close>: the content of the
  document, read from \<open>pdf_path\<close> when only the path is given, or the exception raised.
\<close>

definition obtain_content :: "world \<Rightarrow> ustr option \<Rightarrow> bytes option \<Rightarrow> py_exn + bytes" where
  "obtain_content w pdf_path pdf_content =
     (if truthy pdf_path \<and> \<not> truthy pdf_content then read_file w (contents pdf_path)
      else if \<not> truthy pdf_content
      then Inl (ValueError (ustr ''Either pdf_path or pdf_content must be provided''))
      else Inr (contents pdf_content))"

text \<open>
  \<open>process_document_and_answer\<close>. An exception of the head is caught by the \<open>except\<close>
  clause, which sees \<open>questions\<close> as it was passed; the rest raises nothing.
\<close>

definition process_document_and_answer ::
  "nat \<Rightarrow> world \<Rightarrow> processor \<Rightarrow> ustr option \<Rightarrow> bytes option \<Rightarrow> ustr list option
     \<Rightarrow> (ustr list \<times> processor) option" where
  "process_document_and_answer fuel w p pdf_path pdf_content questions =
     (case obtain_content w pdf_path pdf_content of
        Inl e \<Rightarrow>
          (let error_msg = ustr ''Processing failed: '' @ str_exn e
           in Some (if truthy questions then map (\<lambda>_. error_msg) (contents questions)
                    else [error_msg], p))
      | Inr content \<Rightarrow>
          (let questions' = (if \<not> truthy questions then [] else contents questions)
           in case process_document fuel w p content of
                None \<Rightarrow> None
              | Some (doc_result, p1) \<Rightarrow>
                  if \<not> success_doc doc_result
                  then Some (map (\<lambda>_. ustr ''Error processing document: ''
                                        @ message_doc doc_result) questions', p1)
                  else Some (answer_all w 0 questions' p1 [])))"

text \<open>
  A world with no file to read, in which the PDF library reads the text \<open>ab\<close> from the
  four bytes \<open>%PDF\<close> and fails on anything else.
\<close>

definition small_world :: world where
  "small_world =
     \<lparr>read_file = (\<lambda>path. Inl (OSError (ustr ''No such file or directory''))),
      pdf_reader = (\<lambda>b. if b = [37, 80, 68, 70] then Inr (ustr ''ab'')
                         else Inl (Exception (ustr ''EOF marker not found''))),
      alnum_table = ascii_alnum_only, lower_table = ascii_lower_only,
      float_rounding = exact,
      http_service = (\<lambda>k. always (Raised (RequestException [])))\<rparr>"

section \<open>Properties of the chunker\<close>

lemma find_rev_upt_None:
  "List.find P (rev [a..<b]) = None \<longleftrightarrow> (\<forall>k. a \<le> k \<and> k < b \<longrightarrow> \<not> P k)"
  by (auto simp: find_None_iff)

lemma find_rev_upt_Some:
  "List.find P (rev [a..<b]) = Some k \<longleftrightarrow>
     (a \<le> k \<and> k < b \<and> P k \<and> (\<forall>j. k < j \<and> j < b \<longrightarrow> \<not> P j))"
proof (induction b)
  case 0
  then show ?case by simp
next
  case (Suc b)
  show ?case
  proof (cases "a \<le> b")
    case True
    then have "rev [a..<Suc b] = b # rev [a..<b]" by simp
    then show ?thesis using Suc True
      by (auto simp: less_Suc_eq)
  next
    case False
    then show ?thesis by auto
  qed
qed

lemma rfind_empty:
  "adjust_index (length s) j \<le> adjust_index (length s) i \<Longrightarrow> rfind s c i j = - 1"
  by (simp add: rfind_def Let_def)

lemma rfind_cases:
  "rfind s c i j = - 1 \<or>
   (\<exists>k. rfind s c i j = int k \<and> adjust_index (length s) i \<le> k \<and> k < adjust_index (length s) j
        \<and> s ! k = c \<and> (\<forall>m. k < m \<and> m < adjust_index (length s) j \<longrightarrow> s ! m \<noteq> c))"
  by (auto simp: rfind_def Let_def find_rev_upt_Some split: option.splits)

lemma rfind_eqI:
  "adjust_index (length s) i \<le> k \<Longrightarrow> k < adjust_index (length s) j \<Longrightarrow> s ! k = c \<Longrightarrow>
   (\<forall>m. k < m \<and> m < adjust_index (length s) j \<longrightarrow> s ! m \<noteq> c) \<Longrightarrow> rfind s c i j = int k"
proof -
  assume a: "adjust_index (length s) i \<le> k" "k < adjust_index (length s) j" "s ! k = c"
    "\<forall>m. k < m \<and> m < adjust_index (length s) j \<longrightarrow> s ! m \<noteq> c"
  then have "List.find (\<lambda>k. s ! k = c) (rev [adjust_index (length s) i..<adjust_index (length s) j]) = Some k"
    by (simp add: find_rev_upt_Some)
  then show ?thesis by (simp add: rfind_def Let_def)
qed

lemma adjust_index_nonneg: "0 \<le> i \<Longrightarrow> i \<le> int n \<Longrightarrow> adjust_index n i = nat i"
  by (simp add: adjust_index_def)

lemma adjust_index_neg: "i < 0 \<Longrightarrow> - int n \<le> i \<Longrightarrow> adjust_index n i = nat (i + int n)"
  by (simp add: adjust_index_def)

lemma loop_fixpoint:
  "start < int (length text) \<Longrightarrow> window_end cs text start - ov = start \<Longrightarrow>
   create_chunks_loop fuel cs ov text start cid chunks = None"
  by (induction fuel arbitrary: cid chunks) (simp_all add: create_chunks_loop.simps Let_def)

lemma loop_two_cycle:
  "t < int (length text) \<Longrightarrow> m < int (length text) \<Longrightarrow>
   window_end cs text t - ov = m \<Longrightarrow> window_end cs text m - ov = t \<Longrightarrow>
   create_chunks_loop fuel cs ov text t cid chunks = None \<and>
   create_chunks_loop fuel cs ov text m cid' chunks' = None"
  by (induction fuel arbitrary: cid chunks cid' chunks') (simp_all add: create_chunks_loop.simps Let_def)


lemma window_end_bounds:
  assumes "0 \<le> start" "0 < cs"
  shows "start < window_end cs text start \<and> window_end cs text start \<le> start + cs"
proof (cases "start + cs < int (length text)")
  case False
  then show ?thesis using assms by (simp add: window_end_def Let_def)
next
  case True
  have adj: "adjust_index (length text) (start + cs) = nat (start + cs)"
    using True assms by (simp add: adjust_index_nonneg)
  from rfind_cases [of "text" space start "start + cs"]
  show ?thesis
  proof
    assume "rfind text space start (start + cs) = - 1"
    then show ?thesis using assms True by (simp add: window_end_def Let_def)
  next
    assume "\<exists>k. rfind text space start (start + cs) = int k
        \<and> adjust_index (length text) start \<le> k \<and> k < adjust_index (length text) (start + cs)
        \<and> text ! k = space
        \<and> (\<forall>m. k < m \<and> m < adjust_index (length text) (start + cs) \<longrightarrow> text ! m \<noteq> space)"
    then obtain k where k: "rfind text space start (start + cs) = int k"
      "k < nat (start + cs)" using adj by auto
    then show ?thesis using assms True by (auto simp: window_end_def Let_def)
  qed
qed

lemma window_end_snap:
  assumes "0 \<le> start" "0 < cs" "window_end cs text start \<noteq> start + cs"
  shows "start + cs < int (length text) \<and>
         (\<exists>k. window_end cs text start = int k \<and> start < int k \<and> int k < start + cs \<and>
              text ! k = space \<and> (\<forall>m. k < m \<and> int m < start + cs \<longrightarrow> text ! m \<noteq> space))"
proof -
  have lt: "start + cs < int (length text)"
    using assms(3) by (auto simp: window_end_def Let_def split: if_splits)
  have adj: "adjust_index (length text) (start + cs) = nat (start + cs)"
    using lt assms by (simp add: adjust_index_nonneg)
  have snap: "window_end cs text start = rfind text space start (start + cs)"
    "rfind text space start (start + cs) > start"
    using assms(3) lt by (auto simp: window_end_def Let_def split: if_splits)
  from rfind_cases [of "text" space start "start + cs"] snap(2) assms(1)
  obtain k where k: "rfind text space start (start + cs) = int k"
      "k < nat (start + cs)" "text ! k = space"
      "\<forall>m. k < m \<and> m < nat (start + cs) \<longrightarrow> text ! m \<noteq> space"
    using adj by auto
  have "\<forall>m. k < m \<and> int m < start + cs \<longrightarrow> text ! m \<noteq> space"
    using k(4) by auto
  then show ?thesis using lt snap k by auto
qed

lemma window_end_resnap:
  assumes "0 \<le> t" "t + cs < int (length text)" "t < int k" "int k < t + cs"
    "text ! k = space" "\<forall>m. k < m \<and> int m < t + cs \<longrightarrow> text ! m \<noteq> space"
  shows "window_end cs text t = int k"
proof -
  have adj: "adjust_index (length text) (t + cs) = nat (t + cs)"
    "adjust_index (length text) t = nat t"
    using assms by (simp_all add: adjust_index_nonneg)
  have "rfind text space t (t + cs) = int k"
    using assms adj by (intro rfind_eqI) auto
  then show ?thesis using assms by (simp add: window_end_def Let_def)
qed

lemma window_end_negative:
  assumes "start < 0" "0 \<le> start + cs" "cs \<le> int (length text)" "- int (length text) \<le> start"
  shows "window_end cs text start = (if start < - 1 then - 1 else start + cs)"
proof -
  have adj: "adjust_index (length text) (start + cs) = nat (start + cs)"
    "adjust_index (length text) start = nat (start + int (length text))"
    using assms by (simp_all add: adjust_index_nonneg adjust_index_neg)
  have "rfind text space start (start + cs) = - 1"
    using assms adj by (intro rfind_empty) simp
  then show ?thesis using assms by (auto simp: window_end_def Let_def)
qed

lemma slice_from_last_empty:
  assumes "0 \<le> j" "j < int (length s)"
  shows "slice s (- 1) j = []"
proof -
  have "adjust_index (length s) j = nat j" "adjust_index (length s) (- 1) = length s - 1"
    using assms by (auto simp: adjust_index_def)
  then show ?thesis using assms by (simp add: slice_def Let_def)
qed

lemma strip_Nil: "strip [] = []"
  by (simp add: strip_def)


lemma loop_iter:
  assumes "start < int (length text)"
  shows "\<exists>ne cid'. (\<forall>c\<in>set ne. start_pos c = start \<and> end_pos c = window_end cs text start)
     \<and> length ne \<le> 1
     \<and> (strip (slice text start (window_end cs text start)) = [] \<longrightarrow> ne = [])
     \<and> create_chunks_loop (Suc f) cs ov text start cid chunks =
         (if window_end cs text start - ov \<ge> int (length text) then Some (chunks @ ne)
          else create_chunks_loop f cs ov text (window_end cs text start - ov) cid' (chunks @ ne))"
proof (cases "strip (slice text start (window_end cs text start)) = []")
  case True
  show ?thesis
    by (rule exI [of _ "[]"], rule exI [of _ cid]) (use True assms in \<open>simp add: create_chunks_loop.simps Let_def\<close>)
next
  case False
  show ?thesis
    by (rule exI [of _ "[\<lparr>id_chunk = cid,
          text_chunk = strip (slice text start (window_end cs text start)),
          start_pos = start, end_pos = window_end cs text start,
          length_chunk = int (length (strip (slice text start (window_end cs text start))))\<rparr>]"],
        rule exI [of _ "cid + 1"]) (use False assms in \<open>simp add: create_chunks_loop.simps Let_def\<close>)
qed

lemma loop_sorted_aux:
  assumes ov: "0 \<le> ov" "ov < cs"
  shows "0 \<le> start \<Longrightarrow> create_chunks_loop fuel cs ov text start cid chunks = Some res \<Longrightarrow>
     \<exists>new. res = chunks @ new
       \<and> (\<forall>c\<in>set new. start \<le> start_pos c \<and> end_pos c - start_pos c \<le> cs)
       \<and> sorted (map start_pos new)"
proof (induction fuel arbitrary: start cid chunks rule: less_induct)
  case (less fuel)
  let ?L = "int (length text)"
  from less.prems(2) obtain f where fuel: "fuel = Suc f"
    by (cases fuel) (auto simp: create_chunks_loop.simps)
  show ?case
  proof (cases "start < ?L")
    case False
    then have "res = chunks" using less.prems(2) fuel by (simp add: create_chunks_loop.simps)
    then show ?thesis by simp
  next
    case inside: True
    define e where "e = window_end cs text start"
    from loop_iter [OF inside, where cs = cs and ov = ov and f = f and cid = cid and chunks = chunks]
    obtain ne cid' where ne: "\<forall>c\<in>set ne. start_pos c = start \<and> end_pos c = e" "length ne \<le> 1"
      and step: "create_chunks_loop (Suc f) cs ov text start cid chunks =
         (if e - ov \<ge> ?L then Some (chunks @ ne)
          else create_chunks_loop f cs ov text (e - ov) cid' (chunks @ ne))"
      unfolding e_def by blast
    have eb: "start < e" "e \<le> start + cs"
      using window_end_bounds [of start cs "text"] less.prems(1) ov by (auto simp: e_def)
    have ne_ok: "\<forall>c\<in>set ne. start \<le> start_pos c \<and> end_pos c - start_pos c \<le> cs"
      using ne(1) eb by auto
    have ne_sorted: "sorted (map start_pos ne)"
      using ne(2) by (simp add: sorted01)
    show ?thesis
    proof (cases "e - ov \<ge> ?L")
      case True
      then have "res = chunks @ ne" using step less.prems(2) fuel by simp
      then show ?thesis using ne_ok ne_sorted by blast
    next
      case False
      then have rec: "create_chunks_loop f cs ov text (e - ov) cid' (chunks @ ne) = Some res"
        using step less.prems(2) fuel by simp
      have combine: "\<exists>new. res = chunks @ new
          \<and> (\<forall>c\<in>set new. start \<le> start_pos c \<and> end_pos c - start_pos c \<le> cs)
          \<and> sorted (map start_pos new)"
        if t: "start < t" and new': "res = (chunks @ ne) @ new'"
          "\<forall>c\<in>set new'. t \<le> start_pos c \<and> end_pos c - start_pos c \<le> cs"
          "sorted (map start_pos new')" for t new'
      proof -
        have "sorted (map start_pos (ne @ new'))"
          using ne(1) new'(2,3) ne_sorted t by (auto simp: sorted_append)
        moreover have "\<forall>c\<in>set (ne @ new'). start \<le> start_pos c \<and> end_pos c - start_pos c \<le> cs"
          using ne_ok new'(2) t by auto
        ultimately show ?thesis using new'(1) by (intro exI [of _ "ne @ new'"]) simp
      qed
      consider (adv) "start < e - ov" | (retreat) "e - ov \<le> start"
        by linarith
      then show ?thesis
      proof cases
        case adv
        from less.IH [of f "e - ov" cid' "chunks @ ne"] rec adv less.prems(1) fuel
        obtain new' where "res = (chunks @ ne) @ new'"
          "\<forall>c\<in>set new'. e - ov \<le> start_pos c \<and> end_pos c - start_pos c \<le> cs"
          "sorted (map start_pos new')" by auto
        then show ?thesis using combine [OF adv] by blast
      next
        case retreat
        with retreat have "e \<noteq> start + cs" using ov by auto
        from window_end_snap [OF less.prems(1) _ this [unfolded e_def]] ov
        obtain k where k: "start + cs < ?L" "e = int k" "start < int k" "int k < start + cs"
          "text ! k = space" "\<forall>m. k < m \<and> int m < start + cs \<longrightarrow> text ! m \<noteq> space"
          unfolding e_def by auto
        have resnap: "window_end cs text t = e" if "0 \<le> t" "t \<le> start" "e < t + cs" for t
          using window_end_resnap [of t cs "text" k] that k by auto
        have ovpos: "0 < ov" using retreat eb by linarith
        consider (stuck) "0 \<le> e - ov" | (m1) "e - ov = - 1" | (neg) "e - ov < - 1"
          by linarith
        then show ?thesis
        proof cases
          case stuck
          have "window_end cs text (e - ov) = e"
            using resnap [of "e - ov"] stuck retreat ov by simp
          then have "create_chunks_loop f cs ov text (e - ov) cid' (chunks @ ne) = None"
            using False by (intro loop_fixpoint) auto
          then show ?thesis using rec by simp
        next
          case m1
          from rec m1 obtain f' where f: "f = Suc f'"
            by (cases f) (auto simp: create_chunks_loop.simps)
          have we1: "window_end cs text (- 1) = cs - 1"
            using window_end_negative [of "- 1" cs "text"] k ov less.prems(1) by auto
          have sl: "strip (slice text (- 1) (window_end cs text (- 1))) = []"
            using slice_from_last_empty [of "cs - 1" "text"] k ov less.prems(1)
            by (simp add: we1 strip_Nil)
          have in1: "- 1 < ?L" by simp
          from loop_iter [OF in1, where cs = cs and ov = ov and f = f' and cid = cid' and chunks = "chunks @ ne"]
          obtain ne1 cid'' where
            "strip (slice text (- 1) (window_end cs text (- 1))) = [] \<longrightarrow> ne1 = []"
            and step0: "create_chunks_loop (Suc f') cs ov text (- 1) cid' (chunks @ ne) =
             (if window_end cs text (- 1) - ov \<ge> ?L then Some ((chunks @ ne) @ ne1)
              else create_chunks_loop f' cs ov text (window_end cs text (- 1) - ov) cid''
                     ((chunks @ ne) @ ne1))"
            by blast
          then have "ne1 = []" using sl by simp
          have step1: "create_chunks_loop (Suc f') cs ov text (- 1) cid' (chunks @ ne) =
             (if cs - 1 - ov \<ge> ?L then Some (chunks @ ne)
              else create_chunks_loop f' cs ov text (cs - 1 - ov) cid'' (chunks @ ne))"
            using step0 unfolding we1 \<open>ne1 = []\<close> by simp
          have tL: "\<not> cs - 1 - ov \<ge> ?L" using k less.prems(1) ov by linarith
          have rec1: "create_chunks_loop f' cs ov text (cs - 1 - ov) cid'' (chunks @ ne) = Some res"
            using rec step1 tL m1 f by simp
          show ?thesis
          proof (cases "start < cs - 1 - ov")
            case True
            from less.IH [of f' "cs - 1 - ov" cid'' "chunks @ ne"] rec1 True less.prems(1) fuel f
            obtain new' where "res = (chunks @ ne) @ new'"
              "\<forall>c\<in>set new'. cs - 1 - ov \<le> start_pos c \<and> end_pos c - start_pos c \<le> cs"
              "sorted (map start_pos new')" by auto
            then show ?thesis using combine [OF True] by blast
          next
            case False
            have "window_end cs text (cs - 1 - ov) = e"
              using resnap [of "cs - 1 - ov"] False m1 ov by simp
            then have c1: "window_end cs text (cs - 1 - ov) - ov = - 1" using m1 by simp
            have c2: "window_end cs text (- 1) - ov = cs - 1 - ov" using we1 by simp
            from loop_two_cycle [where fuel = f' and cid = cid'' and chunks = "chunks @ ne", OF _ in1 c1 c2] tL
            have "create_chunks_loop f' cs ov text (cs - 1 - ov) cid'' (chunks @ ne) = None"
              by simp
            then show ?thesis using rec1 by simp
          qed
        next
          case neg
          from rec obtain f' where f: "f = Suc f'"
            by (cases f) (auto simp: create_chunks_loop.simps)
          have inn: "e - ov < ?L" using neg by linarith
          have wen: "window_end cs text (e - ov) = - 1"
            using window_end_negative [of "e - ov" cs "text"] neg k ov eb less.prems(1) by auto
          from loop_iter [OF inn, where cs = cs and ov = ov and f = f' and cid = cid' and chunks = "chunks @ ne"]
          obtain ne' cid'' where step1: "create_chunks_loop (Suc f') cs ov text (e - ov) cid' (chunks @ ne) =
             (if - 1 - ov \<ge> ?L then Some ((chunks @ ne) @ ne')
              else create_chunks_loop f' cs ov text (- 1 - ov) cid'' ((chunks @ ne) @ ne'))"
            unfolding wen by blast
          have uL: "- 1 - ov < ?L" using ov by linarith
          have "1 < ov" using neg k less.prems(1) by linarith
          then have "window_end cs text (- 1 - ov) = - 1"
            using window_end_negative [of "- 1 - ov" cs "text"] k ov less.prems(1) by auto
          then have "create_chunks_loop f' cs ov text (- 1 - ov) cid'' ((chunks @ ne) @ ne') = None"
            using uL by (intro loop_fixpoint) auto
          then show ?thesis using rec step1 uL f by simp
        qed
      qed
    qed
  qed
qed

text \<open>
  C1. The claim: for every text and \<open>chunk_size > overlap \<ge> 0\<close>, \<open>create_chunks\<close>
  terminates. The loop has no check for forward progress: with the default parameters
  (1000, 100), on a text of 100 letters, one space and 1000 letters the first window is
  cut at the space, at offset 100, and \<open>start\<close> becomes \<open>100 - 100 = 0\<close> again, so
  every iteration starts where the one before it did and no amount of fuel lets the
  loop return.
\<close>

theorem create_chunks_no_progress:
  "\<forall>fuel. create_chunks fuel 1000 100 (replicate 100 97 @ space # replicate 1000 98) = None"
proof
  fix fuel
  let ?doc = "replicate 100 97 @ space # replicate 1000 (98::nat)"
  have "window_end 1000 ?doc 0 = int 100"
    by (rule window_end_resnap) (auto simp: nth_append nth_Cons' space_def)
  then have "window_end 1000 ?doc 0 - 100 = 0" by simp
  then show "create_chunks fuel 1000 100 ?doc = None"
    unfolding create_chunks_def by (intro loop_fixpoint) auto
qed

text \<open>
  A list that the loop does return is in order: with \<open>chunk_size > overlap \<ge> 0\<close> its
  \<open>start_pos\<close> never decreases and no window is longer than \<open>chunk_size\<close>. Every run in
  which \<open>start\<close> moves back is a run that never returns.
\<close>

lemma create_chunks_returned_in_order:
  assumes "0 \<le> chunk_overlap" "chunk_overlap < chunk_size"
    and "create_chunks fuel chunk_size chunk_overlap text = Some chunks"
  shows "sorted (map start_pos chunks) \<and>
         (\<forall>c\<in>set chunks. end_pos c - start_pos c \<le> chunk_size)"
  using loop_sorted_aux [OF assms(1,2), where start = 0 and fuel = fuel and cid = 0
      and chunks = "[]" and res = chunks] assms(3)
  by (auto simp: create_chunks_def)

text \<open>
  C2. The claim: for all \<open>chunk_size > overlap \<ge> 0\<close> and every non-empty text,
  \<open>create_chunks\<close> returns chunks whose \<open>start_pos\<close> never decreases. On the text
  \<open>a bcdefghij\<close> with \<open>chunk_size = 5\<close> and \<open>overlap = 3\<close> it returns nothing: the first window
  is cut at the space at offset 1, \<open>start\<close> becomes \<open>1 - 3 = -2\<close>, and from there on every
  window ends at \<open>-1\<close>. After three iterations the list holds the chunks \<open>a\<close>, \<open>i\<close> and
  \<open>ghi\<close> with \<open>start_pos\<close> 0, -2 and -4, which decrease, and the loop stays at
  \<open>start = -4\<close> for ever. This is the missing progress check of C1.
\<close>

theorem create_chunks_start_moves_back:
  "(\<forall>fuel. create_chunks_loop (Suc (Suc (Suc fuel))) 5 3 (ustr ''a bcdefghij'') 0 0 [] =
      create_chunks_loop fuel 5 3 (ustr ''a bcdefghij'') (- 4) 3
        [\<lparr>id_chunk = 0, text_chunk = ustr ''a'', start_pos = 0, end_pos = 1, length_chunk = 1\<rparr>,
         \<lparr>id_chunk = 1, text_chunk = ustr ''i'', start_pos = - 2, end_pos = - 1,
            length_chunk = 1\<rparr>,
         \<lparr>id_chunk = 2, text_chunk = ustr ''ghi'', start_pos = - 4, end_pos = - 1,
            length_chunk = 3\<rparr>])
   \<and> (\<forall>fuel. create_chunks fuel 5 3 (ustr ''a bcdefghij'') = None)"
proof -
  let ?doc = "ustr ''a bcdefghij''"
  let ?cs = "[\<lparr>id_chunk = 0, text_chunk = ustr ''a'', start_pos = 0, end_pos = 1, length_chunk = 1\<rparr>,
         \<lparr>id_chunk = 1, text_chunk = ustr ''i'', start_pos = - 2, end_pos = - 1,
            length_chunk = 1\<rparr>,
         \<lparr>id_chunk = 2, text_chunk = ustr ''ghi'', start_pos = - 4, end_pos = - 1,
            length_chunk = 3\<rparr>]"
  have len: "length ?doc = 11" by (simp add: ustr_def)
  have we: "window_end 5 ?doc 0 = 1" "window_end 5 ?doc (- 2) = - 1"
    "window_end 5 ?doc (- 4) = - 1"
    unfolding space_def ustr_def window_end_def by (simp_all add: rfind_def adjust_index_def)
  have sl: "strip (slice ?doc 0 1) = ustr ''a''" "strip (slice ?doc (- 2) (- 1)) = ustr ''i''"
    "strip (slice ?doc (- 4) (- 1)) = ustr ''ghi''"
    unfolding ustr_def by (simp_all add: slice_def adjust_index_def strip_def isspace_def)
  have ne: "ustr ''a'' \<noteq> []" "ustr ''i'' \<noteq> []" "ustr ''ghi'' \<noteq> []"
    by (simp_all add: ustr_def)
  have ln: "length (ustr ''a'') = 1" "length (ustr ''i'') = 1" "length (ustr ''ghi'') = 3"
    by (simp_all add: ustr_def)
  have three: "create_chunks_loop (Suc (Suc (Suc fuel))) 5 3 ?doc 0 0 [] =
      create_chunks_loop fuel 5 3 ?doc (- 4) 3 ?cs" for fuel
    by (simp add: create_chunks_loop.simps we sl len ne ln Let_def)
  have stay: "create_chunks_loop fuel 5 3 ?doc (- 4) cid chunks = None" for fuel cid chunks
    by (rule loop_fixpoint) (simp_all add: we)
  have "create_chunks fuel 5 3 ?doc = None" for fuel
  proof (cases fuel)
    case 0
    then show ?thesis by (simp add: create_chunks_def create_chunks_loop.simps)
  next
    case (Suc f1)
    show ?thesis
    proof (cases f1)
      case 0
      then show ?thesis using Suc
        by (simp add: create_chunks_def create_chunks_loop.simps we sl len ne ln Let_def)
    next
      case (Suc f2)
      show ?thesis
      proof (cases f2)
        case 0
        then show ?thesis using \<open>fuel = Suc f1\<close> \<open>f1 = Suc f2\<close>
          by (simp add: create_chunks_def create_chunks_loop.simps we sl len ne ln Let_def)
      next
        case (Suc f3)
        then show ?thesis using \<open>fuel = Suc f1\<close> \<open>f1 = Suc f2\<close> three [of f3] stay
          by (simp add: create_chunks_def)
      qed
    qed
  qed
  then show ?thesis using three by blast
qed

section \<open>Properties of text cleaning\<close>

lemma set_sub_runs: "set (sub_runs p r s) \<subseteq> insert r {c \<in> set s. \<not> p c}"
proof (induction p r s rule: sub_runs.induct)
  case (1 p r)
  then show ?case by simp
next
  case (2 p r c cs)
  show ?case
  proof (cases "p c")
    case True
    have "set (dropWhile p cs) \<subseteq> set cs" by (auto dest: set_dropWhileD)
    then show ?thesis using 2(1) [OF True] True by auto
  next
    case False
    then show ?thesis using 2(2) [OF False] by auto
  qed
qed

lemma sub_runs_head:
  "sub_runs p r s = a # l \<Longrightarrow> s \<noteq> [] \<and> a = (if p (hd s) then r else hd s)"
  by (cases s) (auto split: if_splits)

lemma sub_runs_unchanged: "\<forall>c\<in>set s. \<not> p c \<Longrightarrow> sub_runs p r s = s"
  by (induction s) auto

lemma ws_run_Cons:
  "ws_run (a # l) = ((l \<noteq> [] \<and> isspace a \<and> isspace (hd l)) \<or> ws_run l)"
  by (cases l) auto

lemma isspace_space: "isspace space"
  by (simp add: isspace_def space_def)

lemma isspace_newline: "isspace newline"
  by (simp add: isspace_def newline_def)

lemma no_ws_run_sub_runs: "\<not> ws_run (sub_runs isspace space s)"
proof (induction s rule: length_induct)
  case (1 s)
  show ?case
  proof (cases s)
    case Nil
    then show ?thesis by simp
  next
    case (Cons c cs)
    show ?thesis
    proof (cases "isspace c")
      case True
      let ?d = "dropWhile isspace cs"
      have "length ?d < length s" using Cons by (simp add: length_dropWhile_le le_imp_less_Suc)
      then have ih: "\<not> ws_run (sub_runs isspace space ?d)" using 1 by blast
      have "\<not> isspace (hd (sub_runs isspace space ?d))" if "sub_runs isspace space ?d \<noteq> []"
      proof -
        from that obtain a l where al: "sub_runs isspace space ?d = a # l"
          by (cases "sub_runs isspace space ?d") auto
        from sub_runs_head [OF al] have "?d \<noteq> []" "a = (if isspace (hd ?d) then space else hd ?d)"
          by auto
        moreover have "\<not> isspace (hd ?d)" using hd_dropWhile [OF \<open>?d \<noteq> []\<close>] .
        ultimately show ?thesis using al by simp
      qed
      then show ?thesis using ih True Cons by (auto simp: ws_run_Cons)
    next
      case False
      have "\<not> ws_run (sub_runs isspace space cs)" using 1 Cons by simp
      then show ?thesis using False Cons by (auto simp: ws_run_Cons)
    qed
  qed
qed

lemma set_strip: "set (strip s) \<subseteq> set s"
  by (auto simp: strip_def dest!: set_dropWhileD)

lemma collapsed_whitespace:
  "c \<in> set (sub_runs isspace space s) \<Longrightarrow> isspace c \<Longrightarrow> c = space"
  using set_sub_runs [of isspace space s] by auto

lemma collapsed_no_newline: "newline \<notin> set (sub_runs isspace space s)"
  using collapsed_whitespace [of newline s] isspace_newline
  by (auto simp: newline_def space_def)

lemma newline_step_noop:
  "sub_runs (\<lambda>c. c = newline) newline (sub_runs isspace space s) = sub_runs isspace space s"
  by (rule sub_runs_unchanged) (use collapsed_no_newline in auto)

lemma set_clean_text: "set (clean_text uni_alnum s) \<subseteq> set (sub_runs isspace space s)"
  using set_strip by (fastforce simp: clean_text_def Let_def newline_step_noop)


lemma char_classes:
  "isspace 32" "isspace 10" "isspace 9" "\<not> isspace 97" "\<not> isspace 98" "\<not> isspace 64"
  "\<not> isspace 35"
  by (simp_all add: isspace_def)

lemma kept_ascii:
  "kept ascii_alnum_only 97" "kept ascii_alnum_only 98" "kept ascii_alnum_only 32"
  "\<not> kept ascii_alnum_only 64" "\<not> kept ascii_alnum_only 35"
  unfolding kept_def isword_def ustr_def ascii_alnum_only_def by (simp_all add: char_classes)

lemma strip_examples:
  "strip [97, 32, 32, 98] = [97, 32, 32, 98]" "strip [97, 32, 98] = [97, 32, 98]"
  unfolding strip_def by (simp_all add: char_classes)

text \<open>
  C10. The claim: the output of \<open>clean_text\<close> has no newline and no run of two or more
  whitespace characters. The second part fails: the special characters are removed
  after the whitespace runs are collapsed, so the two spaces around a removed character
  end up next to each other.
\<close>

theorem clean_text_leaves_double_space:
  "clean_text ascii_alnum_only (ustr ''a @ b'') = ustr ''a  b''
   \<and> ws_run (clean_text ascii_alnum_only (ustr ''a @ b''))"
proof -
  have s1: "sub_runs isspace space (ustr ''a @ b'') = [97, 32, 64, 32, 98]"
    unfolding ustr_def space_def by (simp add: char_classes)
  have s2: "sub_runs (\<lambda>c. c = newline) newline [97, 32, 64, 32, 98] = [97, 32, 64, 32, 98]"
    by (simp add: newline_def)
  have "clean_text ascii_alnum_only (ustr ''a @ b'') = [97, 32, 32, 98]"
    unfolding clean_text_def Let_def s1 s2 by (simp add: kept_ascii strip_examples)
  moreover have "ustr ''a  b'' = [97, 32, 32, 98]" by (simp add: ustr_def)
  moreover have "ws_run [97, 32, 32, 98]" by (simp add: char_classes)
  ultimately show ?thesis by simp
qed

lemma ws_run_appendI: "isspace a \<Longrightarrow> isspace b \<Longrightarrow> ws_run (xs @ a # b # ys)"
  by (induction xs) (auto simp: ws_run_Cons)

lemma ws_run_appendD:
  "ws_run t \<Longrightarrow> \<exists>xs a b ys. t = xs @ a # b # ys \<and> isspace a \<and> isspace b"
proof (induction t rule: ws_run.induct)
  case (1 a b s)
  show ?case
  proof (cases "isspace a \<and> isspace b")
    case True
    then show ?thesis by (intro exI [of _ "[]"]) auto
  next
    case False
    then have "ws_run (b # s)" using 1(2) by auto
    from 1(1) [OF this] obtain xs a' b' ys
      where "b # s = xs @ a' # b' # ys" "isspace a'" "isspace b'" by blast
    then have "a # b # s = (a # xs) @ a' # b' # ys \<and> isspace a' \<and> isspace b'" by simp
    then show ?thesis by blast
  qed
qed simp_all

lemma ws_run_rev: "ws_run (rev t) \<Longrightarrow> ws_run t"
proof -
  assume "ws_run (rev t)"
  from ws_run_appendD [OF this] obtain xs a b ys
    where r: "rev t = xs @ a # b # ys" "isspace a" "isspace b" by blast
  from r(1) have "t = rev (xs @ a # b # ys)" by (metis rev_rev_ident)
  then have "t = rev ys @ b # a # rev xs" by simp
  then show "ws_run t" using ws_run_appendI [OF r(3) r(2)] by simp
qed

lemma ws_run_dropWhile: "ws_run (dropWhile p t) \<Longrightarrow> ws_run t"
proof -
  assume "ws_run (dropWhile p t)"
  from ws_run_appendD [OF this] obtain xs a b ys
    where r: "dropWhile p t = xs @ a # b # ys" "isspace a" "isspace b" by blast
  have "t = takeWhile p t @ dropWhile p t" by simp
  then have "t = (takeWhile p t @ xs) @ a # b # ys" using r(1) by simp
  then show "ws_run t" using ws_run_appendI [OF r(2,3)] by metis
qed

lemma ws_run_strip: "ws_run (strip t) \<Longrightarrow> ws_run t"
  unfolding strip_def by (blast dest: ws_run_rev ws_run_dropWhile)

lemma kept_space: "kept uni_alnum space"
  by (simp add: kept_def isspace_space)

lemma nothing_removed:
  assumes "\<forall>c\<in>set s. kept uni_alnum c"
  shows "filter (kept uni_alnum) (sub_runs isspace space s) = sub_runs isspace space s"
  using assms set_sub_runs [of isspace space s] kept_space [of uni_alnum]
  by (intro filter_True) auto

lemma clean_text_steps:
  "clean_text uni_alnum s = strip (filter (kept uni_alnum) (sub_runs isspace space s))"
  by (simp add: clean_text_def Let_def newline_step_noop)

text \<open>
  C10, amended. For every input string the output of \<open>clean_text\<close> contains no newline
  character, and a whitespace character in it is a plain space. When the input has no
  character that the special-character step deletes, the output has no run of two or
  more consecutive whitespace characters. The whitespace-collapse step replaces every
  whitespace run, newlines included, by one space before the newline step runs, which
  makes the latter a no-op: the output is the collapsed text with the special
  characters removed and the ends trimmed. A run of spaces in the output comes from a
  deleted character between two spaces.
\<close>

theorem clean_text_whitespace:
  "newline \<notin> set (clean_text uni_alnum s)
   \<and> (\<forall>c\<in>set (clean_text uni_alnum s). isspace c \<longrightarrow> c = space)
   \<and> ((\<forall>c\<in>set s. kept uni_alnum c) \<longrightarrow> \<not> ws_run (clean_text uni_alnum s))
   \<and> clean_text uni_alnum s = strip (filter (kept uni_alnum) (sub_runs isspace space s))"
proof -
  have "newline \<notin> set (clean_text uni_alnum s)"
    using set_clean_text [of uni_alnum s] collapsed_no_newline [of s] by blast
  moreover have "\<forall>c\<in>set (clean_text uni_alnum s). isspace c \<longrightarrow> c = space"
    using set_clean_text [of uni_alnum s] collapsed_whitespace [of _ s] by blast
  moreover have "\<not> ws_run (clean_text uni_alnum s)" if "\<forall>c\<in>set s. kept uni_alnum c"
    using ws_run_strip [of "sub_runs isspace space s"] no_ws_run_sub_runs [of s]
    by (auto simp: clean_text_steps nothing_removed [OF that])
  ultimately show ?thesis using clean_text_steps [of uni_alnum s] by blast
qed

theorem clean_text_whitespace_witness:
  "list_all (kept ascii_alnum_only) [97, 10, 10, 9, 32, 98]
   \<and> ws_run [97, 10, 10, 9, 32, 98]
   \<and> clean_text ascii_alnum_only [97, 10, 10, 9, 32, 98] = ustr ''a b''
   \<and> newline \<notin> set (ustr ''a b'')
   \<and> list_all (\<lambda>c. c = space \<or> \<not> isspace c) (ustr ''a b'')
   \<and> \<not> ws_run (ustr ''a b'')
   \<and> strip (filter (kept ascii_alnum_only) (sub_runs isspace space [97, 10, 10, 9, 32, 98]))
       = ustr ''a b''"
proof -
  let ?s = "[97, 10, 10, 9, 32, 98] :: ustr"
  have kp: "kept ascii_alnum_only 10" "kept ascii_alnum_only 9"
    by (simp_all add: kept_def char_classes)
  have all: "\<forall>c\<in>set ?s. kept ascii_alnum_only c" by (simp add: kept_ascii kp)
  have run: "ws_run ?s" by (simp add: char_classes)
  have w1: "sub_runs isspace space ?s = [97, 32, 98]"
    unfolding space_def by (simp add: char_classes)
  have st: "strip (filter (kept ascii_alnum_only) [97, 32, 98]) = ustr ''a b''"
    by (simp add: kept_ascii strip_examples) (simp add: ustr_def)
  from clean_text_whitespace [of ascii_alnum_only ?s] all
  have "newline \<notin> set (clean_text ascii_alnum_only ?s)"
    "\<forall>c\<in>set (clean_text ascii_alnum_only ?s). isspace c \<longrightarrow> c = space"
    "\<not> ws_run (clean_text ascii_alnum_only ?s)"
    "clean_text ascii_alnum_only ?s = ustr ''a b''"
    unfolding w1 st by blast+
  then show ?thesis using all run unfolding w1 st by (auto simp: list_all_iff)
qed

section \<open>Properties of the completion client\<close>

lemma get_next_api_key_in_range:
  assumes "cursor_in_range c"
  shows "get_next_api_key c =
           Inr (api_keys c ! nat (current_key_index c),
                c\<lparr>current_key_index := (current_key_index c + 1) mod int (length (api_keys c))\<rparr>)"
  using assms by (simp add: get_next_api_key_def cursor_in_range_def Let_def)

lemma cursor_in_range_advance:
  assumes "cursor_in_range c"
  shows "cursor_in_range
           (c\<lparr>current_key_index := (current_key_index c + k) mod int (length (api_keys c))\<rparr>)"
proof -
  have "0 < int (length (api_keys c))" using assms unfolding cursor_in_range_def by linarith
  then show ?thesis by (simp add: cursor_in_range_def)
qed

lemma get_next_api_key_keeps_pool:
  "get_next_api_key c = Inr (key, c') \<Longrightarrow>
     api_keys c' = api_keys c \<and> max_retries c' = max_retries c"
  by (auto simp: get_next_api_key_def Let_def split: if_splits)

lemma get_next_api_key_keeps_range:
  "cursor_in_range c \<Longrightarrow> get_next_api_key c = Inr (key, c') \<Longrightarrow> cursor_in_range c'"
  using cursor_in_range_advance [of c 1] by (simp add: get_next_api_key_in_range)

lemma attempts_keeps_range:
  "cursor_in_range c \<Longrightarrow> cursor_in_range (snd (snd (attempts http as c trace)))"
proof (induction as arbitrary: c trace)
  case Nil
  then show ?case by simp
next
  case (Cons a as)
  let ?c' = "c\<lparr>current_key_index := (current_key_index c + 1) mod int (length (api_keys c))\<rparr>"
  have r: "cursor_in_range ?c'" using cursor_in_range_advance [OF Cons.prems, of 1] .
  have ih: "cursor_in_range (snd (snd (attempts http as ?c' t)))" for t
    using Cons.IH [OF r] .
  show ?case
    using ih r
    by (simp add: get_next_api_key_in_range [OF Cons.prems]
        split: http_result.split sum.split)
qed

text \<open>One attempt that receives a status other than 200.\<close>

lemma attempts_step:
  assumes "cursor_in_range c" "http a = Response st body" "st \<noteq> 200"
  shows "attempts http (a # rest) c trace =
           attempts http rest
             (c\<lparr>current_key_index := (current_key_index c + 1) mod int (length (api_keys c))\<rparr>)
             (trace @ Post (api_keys c ! nat (current_key_index c))
                # (if st \<in> set [429, 500, 502, 503] then [Sleep (2 ^ a)] else []))"
  using assms(2,3) by (simp add: get_next_api_key_in_range [OF assms(1)])

text \<open>A run in which every attempt receives a status other than 200.\<close>

lemma attempts_all_fail:
  assumes "cursor_in_range c"
    and "\<forall>a. m \<le> a \<and> a < n \<longrightarrow> http a = Response (st a) (body a) \<and> st a \<noteq> 200"
  shows "attempts http [m..<n] c trace =
           (None,
            trace @ concat (map (\<lambda>a. Post (api_keys c ! nat ((current_key_index c + int (a - m))
                                        mod int (length (api_keys c))))
                              # (if st a \<in> set [429, 500, 502, 503] then [Sleep (2 ^ a)] else []))
                        [m..<n]),
            c\<lparr>current_key_index :=
                 (current_key_index c + int (n - m)) mod int (length (api_keys c))\<rparr>)"
  using assms
proof (induction "n - m" arbitrary: m c trace)
  case 0
  then have "[m..<n] = []" by simp
  moreover have "current_key_index c mod int (length (api_keys c)) = current_key_index c"
    using 0(2) by (simp add: cursor_in_range_def)
  ultimately show ?case using 0(1) by simp
next
  case (Suc k)
  let ?N = "int (length (api_keys c))"
  let ?i = "current_key_index c"
  let ?c' = "c\<lparr>current_key_index := (?i + 1) mod ?N\<rparr>"
  let ?b = "\<lambda>a. if st a \<in> set [429, 500, 502, 503] then [Sleep (2 ^ a)] else []"
  from Suc(2) have mn: "m < n" by simp
  then have upt: "[m..<n] = m # [Suc m..<n]" by (simp add: upt_conv_Cons)
  have hm: "http m = Response (st m) (body m)" "st m \<noteq> 200" using Suc(4) mn by auto
  have r: "cursor_in_range ?c'" using cursor_in_range_advance [OF Suc(3), of 1] .
  have k: "k = n - Suc m" using Suc(2) by simp
  have rest: "\<forall>a. Suc m \<le> a \<and> a < n \<longrightarrow> http a = Response (st a) (body a) \<and> st a \<noteq> 200"
    using Suc(4) by auto
  have i0: "?i mod ?N = ?i" using Suc(3) by (simp add: cursor_in_range_def)
  have shift: "((?i + 1) mod ?N + int (a - Suc m)) mod ?N = (?i + int (a - m)) mod ?N"
    if "Suc m \<le> a" for a
  proof -
    have "int (a - m) = 1 + int (a - Suc m)" using that by simp
    then show ?thesis by (simp add: mod_add_left_eq add.assoc)
  qed
  have maps: "map (\<lambda>a. Post (api_keys ?c' ! nat ((current_key_index ?c' + int (a - Suc m))
                            mod int (length (api_keys ?c')))) # ?b a) [Suc m..<n]
            = map (\<lambda>a. Post (api_keys c ! nat ((?i + int (a - m)) mod ?N)) # ?b a) [Suc m..<n]"
  proof (rule map_cong [OF refl])
    fix a assume "a \<in> set [Suc m..<n]"
    then have le: "Suc m \<le> a" by simp
    have sel: "api_keys ?c' = api_keys c" "current_key_index ?c' = (?i + 1) mod ?N"
      by simp_all
    show "Post (api_keys ?c' ! nat ((current_key_index ?c' + int (a - Suc m))
                 mod int (length (api_keys ?c')))) # ?b a
          = Post (api_keys c ! nat ((?i + int (a - m)) mod ?N)) # ?b a"
      by (simp only: sel shift [OF le])
  qed
  have fin: "((?i + 1) mod ?N + int (n - Suc m)) mod ?N = (?i + int (n - m)) mod ?N"
  proof -
    have "int (n - m) = 1 + int (n - Suc m)" using mn by simp
    then show ?thesis by (simp add: mod_add_left_eq add.assoc)
  qed
  have "attempts http [m..<n] c trace
          = attempts http [Suc m..<n] ?c' (trace @ Post (api_keys c ! nat ?i) # ?b m)"
    unfolding upt by (rule attempts_step [where http = http and a = m, OF Suc(3) hm])
  also have "\<dots> = (None,
        (trace @ Post (api_keys c ! nat ?i) # ?b m)
          @ concat (map (\<lambda>a. Post (api_keys c ! nat ((?i + int (a - m)) mod ?N)) # ?b a)
                      [Suc m..<n]),
        c\<lparr>current_key_index := (?i + int (n - m)) mod ?N\<rparr>)"
    using Suc(1) [OF k r rest, of "trace @ Post (api_keys c ! nat ?i) # ?b m"]
    unfolding maps by (simp add: fin)
  finally show ?case unfolding upt by (simp add: i0)
qed

lemma posts_append: "posts (xs @ ys) = posts xs @ posts ys"
  by (induction xs rule: posts.induct) auto

lemma sleeps_append: "sleeps (xs @ ys) = sleeps xs @ sleeps ys"
  by (induction xs rule: sleeps.induct) auto

lemma posts_concat_map:
  "posts (concat (map (\<lambda>a. Post (k a) # (if b a then [Sleep (s a)] else [])) as)) = map k as"
  by (induction as) (auto simp: posts_append)

lemma sleeps_concat_map:
  "sleeps (concat (map (\<lambda>a. Post (k a) # (if b a then [Sleep (s a)] else [])) as))
     = map s (filter b as)"
  by (induction as) (auto simp: sleeps_append)

text \<open>A call whose first request is answered with status 200 and a body that parses.\<close>

lemma generate_answer_first_ok:
  assumes "cursor_in_range c" "0 < max_retries c" "http 0 = Response 200 (Inr content)"
  shows "generate_answer http c =
           (Some (strip content), [Post (api_keys c ! nat (current_key_index c))],
            c\<lparr>current_key_index := (current_key_index c + 1) mod int (length (api_keys c))\<rparr>)"
proof -
  have "[0..<max_retries c] = 0 # [Suc 0..<max_retries c]"
    using assms(2) by (simp add: upt_conv_Cons)
  then show ?thesis
    using assms(3) by (simp add: generate_answer_def get_next_api_key_in_range [OF assms(1)])
qed

lemma consecutive_calls_ok:
  assumes "cursor_in_range c" "0 < max_retries c"
    and "\<forall>h\<in>set hs. \<exists>content. h 0 = Response 200 (Inr content)"
    and "consecutive_calls hs c = (rs, c')"
  shows "map (\<lambda>r. posts (snd r)) rs =
           map (\<lambda>j. [api_keys c ! nat ((current_key_index c + int j)
                        mod int (length (api_keys c)))]) [0..<length hs]
         \<and> current_key_index c' =
             (current_key_index c + int (length hs)) mod int (length (api_keys c))
         \<and> api_keys c' = api_keys c
         \<and> (\<forall>r\<in>set rs. fst r \<noteq> None)"
  using assms
proof (induction hs arbitrary: c rs c')
  case Nil
  then show ?case by (simp add: cursor_in_range_def)
next
  case (Cons h hs)
  let ?N = "int (length (api_keys c))"
  let ?i = "current_key_index c"
  let ?c1 = "c\<lparr>current_key_index := (?i + 1) mod ?N\<rparr>"
  from Cons.prems(3) obtain content where h0: "h 0 = Response 200 (Inr content)" by auto
  have g: "generate_answer h c = (Some (strip content), [Post (api_keys c ! nat ?i)], ?c1)"
    using generate_answer_first_ok [where http = h, OF Cons.prems(1,2) h0] .
  obtain rs1 c2 where rec: "consecutive_calls hs ?c1 = (rs1, c2)"
    by (cases "consecutive_calls hs ?c1") auto
  have rs: "rs = (Some (strip content), [Post (api_keys c ! nat ?i)]) # rs1" and c': "c' = c2"
    using Cons.prems(4) g rec by auto
  have r1: "cursor_in_range ?c1" using cursor_in_range_advance [OF Cons.prems(1), of 1] .
  have m1: "0 < max_retries ?c1" using Cons.prems(2) by simp
  have all: "\<forall>h\<in>set hs. \<exists>content. h 0 = Response 200 (Inr content)"
    using Cons.prems(3) by simp
  note ih = Cons.IH [OF r1 m1 all rec]
  have i0: "?i mod ?N = ?i" using Cons.prems(1) by (simp add: cursor_in_range_def)
  have shift: "((?i + 1) mod ?N + int j) mod ?N = (?i + int (Suc j)) mod ?N" for j
    by (simp add: mod_add_left_eq add.assoc)
  have "[0..<length (h # hs)] = 0 # map Suc [0..<length hs]"
    by (simp add: map_Suc_upt upt_conv_Cons del: upt_Suc)
  then have "map (\<lambda>j. [api_keys c ! nat ((?i + int j) mod ?N)]) [0..<length (h # hs)]
      = [api_keys c ! nat ?i]
          # map (\<lambda>j. [api_keys c ! nat ((?i + int (Suc j)) mod ?N)]) [0..<length hs]"
    by (simp add: i0 comp_def)
  moreover have "map (\<lambda>r. posts (snd r)) rs1
      = map (\<lambda>j. [api_keys c ! nat ((?i + int (Suc j)) mod ?N)]) [0..<length hs]"
    using ih by (simp add: shift)
  moreover have "current_key_index c2 = (?i + int (length (h # hs))) mod ?N"
    using ih shift [of "length hs"] by simp
  moreover have "api_keys c2 = api_keys c" using ih by simp
  moreover have "\<forall>r\<in>set rs1. fst r \<noteq> None" using ih by simp
  ultimately show ?case unfolding rs c' by simp
qed

text \<open>
  One attempt with the cursor in range: a request goes out with the key under the
  cursor, the cursor moves on by one, and either the call returns or the loop goes on
  with events that are not requests.
\<close>

lemma attempts_one:
  assumes "cursor_in_range c"
  shows "(\<exists>answer. attempts http (a # as) c trace =
            (Some answer, trace @ [Post (api_keys c ! nat (current_key_index c))],
             c\<lparr>current_key_index := (current_key_index c + 1) mod int (length (api_keys c))\<rparr>))
       \<or> (\<exists>extra. posts extra = [] \<and>
            attempts http (a # as) c trace =
              attempts http as
                (c\<lparr>current_key_index := (current_key_index c + 1) mod int (length (api_keys c))\<rparr>)
                (trace @ Post (api_keys c ! nat (current_key_index c)) # extra))"
proof (cases "http a")
  case (Raised e)
  then show ?thesis
    by (intro disjI2 exI [of _ "[Sleep 1]"])
       (simp add: get_next_api_key_in_range [OF assms])
next
  case (Response st body)
  show ?thesis
  proof (cases "st = 200")
    case True
    show ?thesis
    proof (cases body)
      case (Inl e)
      then show ?thesis using Response True
        by (intro disjI2 exI [of _ "[Sleep 1]"])
           (simp add: get_next_api_key_in_range [OF assms])
    next
      case (Inr content)
      then show ?thesis using Response True
        by (intro disjI1 exI [of _ "strip content"])
           (simp add: get_next_api_key_in_range [OF assms])
    qed
  next
    case False
    show ?thesis
      using attempts_step [where http = http and a = a, OF assms Response False]
      by (intro disjI2
          exI [of _ "if st \<in> set [429, 500, 502, 503] then [Sleep (2 ^ a)] else []"]) simp
  qed
qed

text \<open>
  Whatever the requests bring, they go out in rotation order from the cursor, one key
  per request, and the cursor ends as many places further as requests were sent.
\<close>

lemma attempts_rotation:
  assumes "cursor_in_range c"
  shows "\<exists>new. fst (snd (attempts http as c trace)) = trace @ new
     \<and> posts new = map (\<lambda>j. api_keys c ! nat ((current_key_index c + int j)
                              mod int (length (api_keys c)))) [0..<length (posts new)]
     \<and> current_key_index (snd (snd (attempts http as c trace))) =
         (current_key_index c + int (length (posts new))) mod int (length (api_keys c))
     \<and> api_keys (snd (snd (attempts http as c trace))) = api_keys c
     \<and> max_retries (snd (snd (attempts http as c trace))) = max_retries c"
  using assms
proof (induction as arbitrary: c trace)
  case Nil
  then show ?case by (intro exI [of _ "[]"]) (simp add: cursor_in_range_def)
next
  case (Cons a as)
  let ?N = "int (length (api_keys c))"
  let ?i = "current_key_index c"
  let ?key = "api_keys c ! nat ?i"
  let ?c1 = "c\<lparr>current_key_index := (?i + 1) mod ?N\<rparr>"
  have i0: "?i mod ?N = ?i" using Cons.prems by (simp add: cursor_in_range_def)
  have r1: "cursor_in_range ?c1" using cursor_in_range_advance [OF Cons.prems, of 1] .
  from attempts_one [OF Cons.prems, of http a as trace]
  show ?case
  proof
    assume "\<exists>answer. attempts http (a # as) c trace = (Some answer, trace @ [Post ?key], ?c1)"
    then obtain answer
      where eq: "attempts http (a # as) c trace = (Some answer, trace @ [Post ?key], ?c1)"
      by blast
    show ?thesis unfolding eq by (intro exI [of _ "[Post ?key]"]) (simp add: i0)
  next
    assume "\<exists>extra. posts extra = [] \<and> attempts http (a # as) c trace =
              attempts http as ?c1 (trace @ Post ?key # extra)"
    then obtain extra where ex: "posts extra = []"
      and eq: "attempts http (a # as) c trace = attempts http as ?c1 (trace @ Post ?key # extra)"
      by blast
    from Cons.IH [OF r1, of "trace @ Post ?key # extra"]
    obtain new1 where n1:
      "fst (snd (attempts http as ?c1 (trace @ Post ?key # extra)))
         = (trace @ Post ?key # extra) @ new1"
      "posts new1 = map (\<lambda>j. api_keys c ! nat (((?i + 1) mod ?N + int j) mod ?N))
                      [0..<length (posts new1)]"
      "current_key_index (snd (snd (attempts http as ?c1 (trace @ Post ?key # extra))))
         = ((?i + 1) mod ?N + int (length (posts new1))) mod ?N"
      "api_keys (snd (snd (attempts http as ?c1 (trace @ Post ?key # extra)))) = api_keys c"
      "max_retries (snd (snd (attempts http as ?c1 (trace @ Post ?key # extra))))
         = max_retries c"
      by auto
    have shift: "((?i + 1) mod ?N + int j) mod ?N = (?i + int (Suc j)) mod ?N" for j
      by (simp add: mod_add_left_eq add.assoc)
    let ?new = "Post ?key # extra @ new1"
    have p: "posts ?new = ?key # posts new1" using ex by (simp add: posts_append)
    have u: "[0..<Suc (length (posts new1))] = 0 # map Suc [0..<length (posts new1)]"
      by (simp add: map_Suc_upt upt_conv_Cons del: upt_Suc)
    have "posts ?new = map (\<lambda>j. api_keys c ! nat ((?i + int j) mod ?N)) [0..<length (posts ?new)]"
      unfolding p using n1(2) by (simp add: u i0 comp_def shift del: upt_Suc)
    moreover have "current_key_index (snd (snd (attempts http (a # as) c trace)))
        = (?i + int (length (posts ?new))) mod ?N"
      unfolding eq p using n1(3) shift [of "length (posts new1)"] by simp
    moreover have "fst (snd (attempts http (a # as) c trace)) = trace @ ?new"
      unfolding eq using n1(1) by simp
    ultimately show ?thesis using n1(4,5) unfolding eq by blast
  qed
qed

text \<open>One call: its requests go out in rotation order from the cursor.\<close>

lemma generate_answer_rotation:
  assumes "cursor_in_range c" "generate_answer http c = (r, tr, c')"
  shows "posts tr = map (\<lambda>j. api_keys c ! nat ((current_key_index c + int j)
                            mod int (length (api_keys c)))) [0..<length (posts tr)]
       \<and> current_key_index c' =
           (current_key_index c + int (length (posts tr))) mod int (length (api_keys c))
       \<and> api_keys c' = api_keys c \<and> max_retries c' = max_retries c \<and> cursor_in_range c'"
proof -
  let ?run = "attempts http [0..<max_retries c] c []"
  have tr: "fst (snd ?run) = tr" and c': "snd (snd ?run) = c'"
    using assms(2) by (simp_all add: generate_answer_def)
  from attempts_rotation [OF assms(1), of http "[0..<max_retries c]" "[]"]
  obtain new where n: "fst (snd ?run) = [] @ new"
    "posts new = map (\<lambda>j. api_keys c ! nat ((current_key_index c + int j)
                            mod int (length (api_keys c)))) [0..<length (posts new)]"
    "current_key_index (snd (snd ?run)) =
       (current_key_index c + int (length (posts new))) mod int (length (api_keys c))"
    "api_keys (snd (snd ?run)) = api_keys c" "max_retries (snd (snd ?run)) = max_retries c"
    by blast
  have new: "new = tr" using n(1) tr by simp
  have "cursor_in_range (snd (snd ?run))" using attempts_keeps_range [OF assms(1)] .
  then show ?thesis using n(2-5) unfolding new c' by blast
qed

text \<open>Calls one after the other: all their requests together go out in rotation order.\<close>

lemma consecutive_calls_rotation:
  assumes "cursor_in_range c" "consecutive_calls hs c = (rs, c')"
  shows "sent rs = map (\<lambda>j. api_keys c ! nat ((current_key_index c + int j)
                           mod int (length (api_keys c)))) [0..<length (sent rs)]
       \<and> current_key_index c' =
           (current_key_index c + int (length (sent rs))) mod int (length (api_keys c))
       \<and> api_keys c' = api_keys c \<and> length rs = length hs"
  using assms
proof (induction hs arbitrary: c rs c')
  case Nil
  then show ?case by (simp add: sent_def cursor_in_range_def)
next
  case (Cons h hs)
  let ?N = "int (length (api_keys c))"
  let ?i = "current_key_index c"
  let ?f = "\<lambda>j. api_keys c ! nat ((?i + int j) mod ?N)"
  obtain r tr c1 where g: "generate_answer h c = (r, tr, c1)"
    by (cases "generate_answer h c") auto
  obtain rs1 c2 where rec: "consecutive_calls hs c1 = (rs1, c2)"
    by (cases "consecutive_calls hs c1") auto
  have rs: "rs = (r, tr) # rs1" and c': "c' = c2"
    using Cons.prems(2) g rec by auto
  note one = generate_answer_rotation [OF Cons.prems(1) g]
  let ?p = "length (posts tr)"
  let ?q = "length (sent rs1)"
  have r1: "cursor_in_range c1" and k1: "api_keys c1 = api_keys c"
    and i1: "current_key_index c1 = (?i + int ?p) mod ?N"
    and p: "posts tr = map ?f [0..<?p]"
    using one by blast+
  note ih = Cons.IH [OF r1 rec]
  have shift: "((?i + int ?p) mod ?N + int j) mod ?N = (?i + int (j + ?p)) mod ?N" for j
  proof -
    have "((?i + int ?p) mod ?N + int j) mod ?N = ((?i + int ?p) + int j) mod ?N"
      by (rule mod_add_left_eq)
    also have "(?i + int ?p) + int j = ?i + int (j + ?p)" by simp
    finally show ?thesis .
  qed
  from ih have ih1: "sent rs1 = map (\<lambda>j. api_keys c ! nat (((?i + int ?p) mod ?N + int j) mod ?N))
                               [0..<?q]"
    and ih2: "current_key_index c2 = ((?i + int ?p) mod ?N + int ?q) mod ?N"
    and ih3: "api_keys c2 = api_keys c" "length rs1 = length hs"
    unfolding k1 i1 by blast+
  have q: "sent rs1 = map (\<lambda>j. ?f (j + ?p)) [0..<?q]"
    using ih1 unfolding shift .
  have "map (\<lambda>j. ?f (j + ?p)) [0..<?q] = map ?f (map (\<lambda>j. j + ?p) [0..<?q])"
    by (simp add: comp_def)
  also have "\<dots> = map ?f [?p..<?q + ?p]" by (simp only: map_add_upt)
  finally have "map (\<lambda>j. ?f (j + ?p)) [0..<?q] = map ?f [?p..<?p + ?q]"
    by (simp only: add.commute)
  with q have q': "sent rs1 = map ?f [?p..<?p + ?q]" by (rule trans)
  have len: "length (sent rs) = ?p + ?q" by (simp add: rs sent_def)
  have "sent rs = posts tr @ sent rs1" by (simp add: rs sent_def)
  also have "\<dots> = map ?f [0..<?p] @ map ?f [?p..<?p + ?q]"
    by (rule arg_cong2 [where f = append, OF p q'])
  also have "\<dots> = map ?f [0..<?p + ?q]" by (simp only: upt_add_eq_append [OF le0] map_append)
  finally have a: "sent rs = map ?f [0..<length (sent rs)]" unfolding len .
  have b: "current_key_index c' = (?i + int (length (sent rs))) mod ?N"
    using ih2 unfolding c' len shift by (simp only: add.commute)
  have "api_keys c' = api_keys c" "length rs = length (h # hs)"
    using ih3 unfolding c' rs by simp_all
  then show ?case using a b by blast
qed

text \<open>The example client and its keys.\<close>

lemma fresh_client_fields:
  "api_keys fresh_client = [ustr ''k1'', ustr ''k2'']" "current_key_index fresh_client = 0"
  "max_retries fresh_client = 3" "cursor_in_range fresh_client"
  by (simp_all add: fresh_client_def cursor_in_range_def)

lemma upt_3: "[0..<3] = [0, 1, 2]"
  by (simp add: numeral_3_eq_3)

lemma example_keys:
  "[ustr ''k1'', ustr ''k2''] ! 0 = ustr ''k1''" "[ustr ''k1'', ustr ''k2''] ! Suc 0 = ustr ''k2''"
  by simp_all

lemma example_mods: "(0::int) mod 2 = 0" "(1::int) mod 2 = 1" "(2::int) mod 2 = 0" "(3::int) mod 2 = 1"
  by simp_all

text \<open>
  C9. The cursor invariant \<open>0 \<le> current_key_index < len(api_keys)\<close> holds after
  construction with a non-empty pool. A call of \<open>get_next_api_key\<close> on a client with
  the invariant raises nothing: it returns the key under the cursor, which is an index
  of the pool, and leaves a client with the invariant. Hence a call of
  \<open>generate_answer\<close> leaves a client with the invariant and the same pool, and the keys
  of its requests are read from the pool at the rotation positions.
\<close>

theorem cursor_invariant:
  "(keys \<noteq> [] \<longrightarrow>
      (\<exists>c0. AIAnswerGenerator_init keys model_name = Inr c0 \<and> cursor_in_range c0
         \<and> api_keys c0 = keys))
   \<and> (cursor_in_range c \<longrightarrow>
        nat (current_key_index c) < length (api_keys c)
        \<and> get_next_api_key c =
            Inr (api_keys c ! nat (current_key_index c),
                 c\<lparr>current_key_index :=
                      (current_key_index c + 1) mod int (length (api_keys c))\<rparr>)
        \<and> cursor_in_range
            (c\<lparr>current_key_index :=
                 (current_key_index c + 1) mod int (length (api_keys c))\<rparr>))
   \<and> (cursor_in_range c \<longrightarrow>
        cursor_in_range (snd (snd (generate_answer http c)))
        \<and> api_keys (snd (snd (generate_answer http c))) = api_keys c
        \<and> posts (fst (snd (generate_answer http c))) =
            map (\<lambda>j. api_keys c ! nat ((current_key_index c + int j)
                         mod int (length (api_keys c))))
              [0..<length (posts (fst (snd (generate_answer http c))))])"
proof (intro conjI impI)
  assume "keys \<noteq> []"
  then show "\<exists>c0. AIAnswerGenerator_init keys model_name = Inr c0 \<and> cursor_in_range c0
               \<and> api_keys c0 = keys"
    by (simp add: AIAnswerGenerator_init_def cursor_in_range_def)
next
  assume "cursor_in_range c"
  then show "nat (current_key_index c) < length (api_keys c)"
    unfolding cursor_in_range_def by linarith
next
  assume "cursor_in_range c"
  then show "get_next_api_key c =
      Inr (api_keys c ! nat (current_key_index c),
           c\<lparr>current_key_index := (current_key_index c + 1) mod int (length (api_keys c))\<rparr>)"
    by (rule get_next_api_key_in_range)
next
  assume "cursor_in_range c"
  then show "cursor_in_range
      (c\<lparr>current_key_index := (current_key_index c + 1) mod int (length (api_keys c))\<rparr>)"
    by (rule cursor_in_range_advance)
next
  assume r: "cursor_in_range c"
  obtain a tr c' where g: "generate_answer http c = (a, tr, c')"
    by (cases "generate_answer http c") auto
  from generate_answer_rotation [OF r g]
  show "cursor_in_range (snd (snd (generate_answer http c)))"
    "api_keys (snd (snd (generate_answer http c))) = api_keys c"
    "posts (fst (snd (generate_answer http c))) =
       map (\<lambda>j. api_keys c ! nat ((current_key_index c + int j)
                    mod int (length (api_keys c))))
         [0..<length (posts (fst (snd (generate_answer http c))))]"
    unfolding g fst_conv snd_conv by blast+
qed

theorem cursor_invariant_witness:
  "AIAnswerGenerator_init [ustr ''k1'', ustr ''k2''] (ustr ''m'') = Inr fresh_client
   \<and> cursor_in_range fresh_client
   \<and> get_next_api_key fresh_client = Inr (ustr ''k1'', fresh_client\<lparr>current_key_index := 1\<rparr>)
   \<and> cursor_in_range (fresh_client\<lparr>current_key_index := 1\<rparr>)
   \<and> get_next_api_key (fresh_client\<lparr>current_key_index := 1\<rparr>)
       = Inr (ustr ''k2'', fresh_client\<lparr>current_key_index := 0\<rparr>)
   \<and> cursor_in_range (snd (snd (generate_answer (always (Response 503 (Inr []))) fresh_client)))"
proof -
  let ?c1 = "fresh_client\<lparr>current_key_index := 1\<rparr>"
  have init: "AIAnswerGenerator_init [ustr ''k1'', ustr ''k2''] (ustr ''m'') = Inr fresh_client"
    by (simp add: AIAnswerGenerator_init_def fresh_client_def)
  have r0: "cursor_in_range fresh_client" by (rule fresh_client_fields)
  have r1: "cursor_in_range ?c1" by (simp add: fresh_client_def cursor_in_range_def)
  have f1: "api_keys ?c1 = [ustr ''k1'', ustr ''k2'']" "current_key_index ?c1 = 1"
    by (simp_all add: fresh_client_def)
  from cursor_invariant [of "[ustr ''k1'', ustr ''k2'']" "ustr ''m''" fresh_client
      "always (Response 503 (Inr []))"] r0
  have a: "get_next_api_key fresh_client = Inr (ustr ''k1'', ?c1)"
    and b: "cursor_in_range
              (snd (snd (generate_answer (always (Response 503 (Inr []))) fresh_client)))"
    by (simp_all add: fresh_client_fields)
  from cursor_invariant [of "[ustr ''k1'', ustr ''k2'']" "ustr ''m''" ?c1
      "always (Response 503 (Inr []))"] r1
  have c: "get_next_api_key ?c1 = Inr (ustr ''k2'', fresh_client\<lparr>current_key_index := 0\<rparr>)"
    by (simp add: f1)
  from init r0 a r1 c b show ?thesis by blast
qed

text \<open>
  C4. If every attempt of \<open>generate_answer\<close> receives a response with status 503, the
  call makes exactly \<open>max_retries\<close> requests, one per attempt and each followed by a
  sleep of \<open>2 ** attempt\<close> seconds (1, 2, 4, ...), and returns \<open>None\<close>; nothing is
  raised. The constructor sets \<open>max_retries\<close> to 3. The client is one whose cursor
  points into its pool, as it does after the constructor and after every call; with a
  cursor outside the pool no request is sent at all.
\<close>

theorem generate_answer_all_503:
  assumes "cursor_in_range c"
    and "\<forall>a<max_retries c. \<exists>body. http a = Response 503 body"
  shows "generate_answer http c =
           (None,
            concat (map (\<lambda>a. [Post (api_keys c ! nat ((current_key_index c + int a)
                                        mod int (length (api_keys c)))),
                               Sleep (2 ^ a)])
                      [0..<max_retries c]),
            c\<lparr>current_key_index :=
                 (current_key_index c + int (max_retries c)) mod int (length (api_keys c))\<rparr>)
         \<and> length (posts (fst (snd (generate_answer http c)))) = max_retries c
         \<and> sleeps (fst (snd (generate_answer http c))) = map (\<lambda>a. 2 ^ a) [0..<max_retries c]"
proof -
  let ?body = "\<lambda>a. case http a of Response s b \<Rightarrow> b | Raised e \<Rightarrow> Inl e"
  let ?key = "\<lambda>a. api_keys c ! nat ((current_key_index c + int a) mod int (length (api_keys c)))"
  have all: "\<forall>a. 0 \<le> a \<and> a < max_retries c
               \<longrightarrow> http a = Response ((\<lambda>a. 503) a) (?body a) \<and> (\<lambda>a. 503) a \<noteq> (200::int)"
    using assms(2) by auto
  have run: "generate_answer http c =
      (None,
       concat (map (\<lambda>a. Post (?key a) # (if True then [Sleep (2 ^ a)] else []))
                 [0..<max_retries c]),
       c\<lparr>current_key_index :=
            (current_key_index c + int (max_retries c)) mod int (length (api_keys c))\<rparr>)"
    using attempts_all_fail [OF assms(1) all, of "[]"] by (simp add: generate_answer_def)
  have p: "posts (concat (map (\<lambda>a. Post (?key a) # (if True then [Sleep (2 ^ a)] else []))
                            [0..<max_retries c])) = map ?key [0..<max_retries c]"
    by (rule posts_concat_map)
  have s: "sleeps (concat (map (\<lambda>a. Post (?key a) # (if True then [Sleep (2 ^ a)] else []))
                             [0..<max_retries c]))
             = map (\<lambda>a. 2 ^ a) (filter (\<lambda>a. True) [0..<max_retries c])"
    by (rule sleeps_concat_map)
  have "length (posts (fst (snd (generate_answer http c)))) = max_retries c"
    unfolding run fst_conv snd_conv p by simp
  moreover have "sleeps (fst (snd (generate_answer http c))) = map (\<lambda>a. 2 ^ a) [0..<max_retries c]"
    unfolding run fst_conv snd_conv s by simp
  ultimately show ?thesis using run by simp
qed

theorem generate_answer_all_503_witness:
  "cursor_in_range fresh_client
   \<and> max_retries fresh_client = 3
   \<and> always (Response 503 (Inr [])) 0 = Response 503 (Inr [])
   \<and> always (Response 503 (Inr [])) 1 = Response 503 (Inr [])
   \<and> always (Response 503 (Inr [])) 2 = Response 503 (Inr [])
   \<and> generate_answer (always (Response 503 (Inr []))) fresh_client =
       (None,
        [Post (ustr ''k1''), Sleep 1, Post (ustr ''k2''), Sleep 2, Post (ustr ''k1''), Sleep 4],
        fresh_client\<lparr>current_key_index := 1\<rparr>)
   \<and> length (posts (fst (snd (generate_answer (always (Response 503 (Inr []))) fresh_client)))) = 3
   \<and> sleeps (fst (snd (generate_answer (always (Response 503 (Inr []))) fresh_client))) = [1, 2, 4]"
proof -
  have h: "\<forall>a<max_retries fresh_client. \<exists>body. always (Response 503 (Inr [])) a = Response 503 body"
    by (simp add: always_def)
  from generate_answer_all_503 [OF fresh_client_fields(4) h]
  have "generate_answer (always (Response 503 (Inr []))) fresh_client =
       (None,
        [Post (ustr ''k1''), Sleep 1, Post (ustr ''k2''), Sleep 2, Post (ustr ''k1''), Sleep 4],
        fresh_client\<lparr>current_key_index := 1\<rparr>)"
    "length (posts (fst (snd (generate_answer (always (Response 503 (Inr []))) fresh_client)))) = 3"
    "sleeps (fst (snd (generate_answer (always (Response 503 (Inr []))) fresh_client))) = [1, 2, 4]"
    unfolding fresh_client_fields upt_3 by (simp_all add: example_mods)
  then show ?thesis by (simp add: fresh_client_fields always_def)
qed

lemma strip_answers: "strip (ustr ''yes'') = ustr ''yes''" "strip (ustr ''no'') = ustr ''no''"
  unfolding strip_def ustr_def by (simp_all add: isspace_def)

lemma fresh_client_moved:
  "cursor_in_range (fresh_client\<lparr>current_key_index := 1\<rparr>)"
  "api_keys (fresh_client\<lparr>current_key_index := 1\<rparr>) = [ustr ''k1'', ustr ''k2'']"
  "current_key_index (fresh_client\<lparr>current_key_index := 1\<rparr>) = 1"
  "max_retries (fresh_client\<lparr>current_key_index := 1\<rparr>) = 3"
  "fresh_client\<lparr>current_key_index := 0\<rparr> = fresh_client"
  by (simp_all add: fresh_client_def cursor_in_range_def)

text \<open>
  C3. The claim: after a response with status 429 or any 5xx status the client sleeps
  \<open>2 ** attempt\<close> seconds before the next attempt, and after any other status than 200 it
  goes on at once. The code sleeps after the statuses 429, 500, 502 and 503 only: a
  service that answers 504 every time is asked three times with no sleep in between.
\<close>

theorem generate_answer_504_no_backoff:
  "generate_answer (always (Response 504 (Inr []))) fresh_client =
     (None, [Post (ustr ''k1''), Post (ustr ''k2''), Post (ustr ''k1'')],
      fresh_client\<lparr>current_key_index := 1\<rparr>)
   \<and> sleeps (fst (snd (generate_answer (always (Response 504 (Inr []))) fresh_client))) = []"
proof -
  have all: "\<forall>a. 0 \<le> a \<and> a < max_retries fresh_client
      \<longrightarrow> always (Response 504 (Inr [])) a = Response ((\<lambda>a. 504) a) ((\<lambda>a. Inr []) a)
          \<and> (\<lambda>a. 504) a \<noteq> (200::int)"
    by (simp add: always_def)
  have run: "generate_answer (always (Response 504 (Inr []))) fresh_client =
     (None, [Post (ustr ''k1''), Post (ustr ''k2''), Post (ustr ''k1'')],
      fresh_client\<lparr>current_key_index := 1\<rparr>)"
    using attempts_all_fail [OF fresh_client_fields(4) all, of "[]"]
    unfolding generate_answer_def fresh_client_fields upt_3 by (simp add: example_mods)
  show ?thesis unfolding run by simp
qed

text \<open>
  C3, amended. In \<open>generate_answer\<close>, for every status other than 200: if the status is
  429, 500, 502 or 503, the client sleeps \<open>2 ** attempt\<close> seconds (1s, 2s, 4s for the
  attempts 0, 1, 2) and goes on to the next attempt with the next credential; for every
  other status, the other 5xx statuses included, it goes on to the next attempt with the
  next credential at once, without any sleep. The first part is one attempt of the loop,
  whatever the other attempts bring; the second is the whole call when no attempt
  receives status 200. The client is one whose cursor points into its pool, as it does
  after the constructor and after every call.
\<close>

theorem generate_answer_status_handling:
  assumes "cursor_in_range c"
  shows "(http a = Response st body \<and> st \<noteq> 200 \<longrightarrow>
            attempts http (a # rest) c trace =
              attempts http rest
                (c\<lparr>current_key_index :=
                     (current_key_index c + 1) mod int (length (api_keys c))\<rparr>)
                (trace @ Post (api_keys c ! nat (current_key_index c))
                   # (if st \<in> set [429, 500, 502, 503] then [Sleep (2 ^ a)] else [])))
       \<and> ((\<forall>a<max_retries c. http a = Response (sts a) (bodies a) \<and> sts a \<noteq> 200) \<longrightarrow>
            generate_answer http c =
              (None,
               concat (map (\<lambda>a. Post (api_keys c ! nat ((current_key_index c + int a)
                                          mod int (length (api_keys c))))
                                # (if sts a \<in> set [429, 500, 502, 503]
                                   then [Sleep (2 ^ a)] else []))
                         [0..<max_retries c]),
               c\<lparr>current_key_index :=
                    (current_key_index c + int (max_retries c))
                      mod int (length (api_keys c))\<rparr>))"
proof (intro conjI impI)
  assume "http a = Response st body \<and> st \<noteq> 200"
  then show "attempts http (a # rest) c trace =
      attempts http rest
        (c\<lparr>current_key_index := (current_key_index c + 1) mod int (length (api_keys c))\<rparr>)
        (trace @ Post (api_keys c ! nat (current_key_index c))
           # (if st \<in> set [429, 500, 502, 503] then [Sleep (2 ^ a)] else []))"
    using attempts_step [where http = http and a = a, OF assms] by blast
next
  assume "\<forall>a<max_retries c. http a = Response (sts a) (bodies a) \<and> sts a \<noteq> 200"
  then have all: "\<forall>a. 0 \<le> a \<and> a < max_retries c
      \<longrightarrow> http a = Response (sts a) (bodies a) \<and> sts a \<noteq> 200"
    by simp
  show "generate_answer http c =
      (None,
       concat (map (\<lambda>a. Post (api_keys c ! nat ((current_key_index c + int a)
                                  mod int (length (api_keys c))))
                        # (if sts a \<in> set [429, 500, 502, 503] then [Sleep (2 ^ a)] else []))
                 [0..<max_retries c]),
       c\<lparr>current_key_index :=
            (current_key_index c + int (max_retries c)) mod int (length (api_keys c))\<rparr>)"
    using attempts_all_fail [OF assms all, of "[]"] by (simp add: generate_answer_def)
qed

theorem generate_answer_status_handling_witness:
  "cursor_in_range fresh_client
   \<and> replies [Response 429 (Inr []), Response 404 (Inr []), Response 503 (Inr [])] 0
       = Response 429 (Inr [])
   \<and> replies [Response 429 (Inr []), Response 404 (Inr []), Response 503 (Inr [])] 1
       = Response 404 (Inr [])
   \<and> replies [Response 429 (Inr []), Response 404 (Inr []), Response 503 (Inr [])] 2
       = Response 503 (Inr [])
   \<and> attempts (replies [Response 429 (Inr []), Response 404 (Inr []), Response 503 (Inr [])])
         [0, 1, 2] fresh_client []
       = attempts (replies [Response 429 (Inr []), Response 404 (Inr []), Response 503 (Inr [])])
           [1, 2] (fresh_client\<lparr>current_key_index := 1\<rparr>) [Post (ustr ''k1''), Sleep 1]
   \<and> generate_answer
         (replies [Response 429 (Inr []), Response 404 (Inr []), Response 503 (Inr [])])
         fresh_client
       = (None,
          [Post (ustr ''k1''), Sleep 1, Post (ustr ''k2''), Post (ustr ''k1''), Sleep 4],
          fresh_client\<lparr>current_key_index := 1\<rparr>)"
proof -
  let ?h = "replies [Response 429 (Inr []), Response 404 (Inr []), Response 503 (Inr [])]"
  let ?sts = "\<lambda>a. [429, 404, 503 :: int] ! a"
  let ?bodies = "\<lambda>a :: nat. (Inr [] :: py_exn + ustr)"
  have h: "?h 0 = Response 429 (Inr [])" "?h 1 = Response 404 (Inr [])"
    "?h 2 = Response 503 (Inr [])"
    by (simp_all add: replies_def)
  have cases3: "a = 0 \<or> a = 1 \<or> a = 2" if "a < 3" for a :: nat
    using that by linarith
  have all: "\<forall>a<max_retries fresh_client. ?h a = Response (?sts a) (?bodies a) \<and> ?sts a \<noteq> 200"
    unfolding fresh_client_fields using h by (auto dest!: cases3)
  note inst = generate_answer_status_handling [OF fresh_client_fields(4),
      where http = "?h" and a = 0 and st = 429 and body = "Inr []" and rest = "[1, 2]"
        and trace = "[]" and sts = "?sts" and bodies = "?bodies"]
  from inst h(1)
  have step: "attempts ?h [0, 1, 2] fresh_client []
       = attempts ?h [1, 2] (fresh_client\<lparr>current_key_index := 1\<rparr>)
           [Post (ustr ''k1''), Sleep 1]"
    unfolding fresh_client_fields by (simp add: example_mods)
  from inst all
  have run: "generate_answer ?h fresh_client
       = (None,
          [Post (ustr ''k1''), Sleep 1, Post (ustr ''k2''), Post (ustr ''k1''), Sleep 4],
          fresh_client\<lparr>current_key_index := 1\<rparr>)"
    unfolding fresh_client_fields upt_3 by (simp add: example_mods)
  from fresh_client_fields(4) h step run show ?thesis by blast
qed

text \<open>
  C5. The claim: N successful calls in a row on a fresh client with N credentials use
  each credential once, the i-th call the i-th credential. A call that succeeds at its
  second attempt has used two credentials: with two keys, a call that is answered 503
  and then 200 sends the first and the second key, and the next call, which succeeds at
  once, sends the first key again.
\<close>

theorem consecutive_calls_retry_skips_key:
  "consecutive_calls
     [replies [Response 503 (Inr []), Response 200 (Inr (ustr ''yes''))],
      replies [Response 200 (Inr (ustr ''no''))]]
     fresh_client
   = ([(Some (ustr ''yes''), [Post (ustr ''k1''), Sleep 1, Post (ustr ''k2'')]),
       (Some (ustr ''no''), [Post (ustr ''k1'')])],
      fresh_client\<lparr>current_key_index := 1\<rparr>)"
proof -
  let ?h1 = "replies [Response 503 (Inr []), Response 200 (Inr (ustr ''yes''))]"
  let ?h2 = "replies [Response 200 (Inr (ustr ''no''))]"
  have h1: "?h1 0 = Response 503 (Inr [])" "?h1 (Suc 0) = Response 200 (Inr (ustr ''yes''))"
    and h2: "?h2 0 = Response 200 (Inr (ustr ''no''))"
    by (simp_all add: replies_def)
  have s1: "attempts ?h1 [0, 1, 2] fresh_client []
      = attempts ?h1 [1, 2] (fresh_client\<lparr>current_key_index := 1\<rparr>)
          [Post (ustr ''k1''), Sleep 1]"
    using attempts_step [where http = ?h1 and a = 0, OF fresh_client_fields(4) h1(1),
        of "[1, 2]" "[]"]
    unfolding fresh_client_fields by (simp add: example_mods)
  have s2: "attempts ?h1 [1, 2] (fresh_client\<lparr>current_key_index := 1\<rparr>)
          [Post (ustr ''k1''), Sleep 1]
      = (Some (ustr ''yes''), [Post (ustr ''k1''), Sleep 1, Post (ustr ''k2'')], fresh_client)"
    using h1(2)
    by (simp add: get_next_api_key_in_range [OF fresh_client_moved(1)] fresh_client_moved
        example_mods strip_answers)
  have g1: "generate_answer ?h1 fresh_client
      = (Some (ustr ''yes''), [Post (ustr ''k1''), Sleep 1, Post (ustr ''k2'')], fresh_client)"
    unfolding generate_answer_def fresh_client_fields upt_3 s1 s2 ..
  have g2: "generate_answer ?h2 fresh_client
      = (Some (ustr ''no''), [Post (ustr ''k1'')], fresh_client\<lparr>current_key_index := 1\<rparr>)"
    using generate_answer_first_ok [where http = ?h2, OF fresh_client_fields(4) _ h2]
    unfolding fresh_client_fields by (simp add: example_mods strip_answers)
  show ?thesis by (simp add: g1 g2)
qed

text \<open>
  C5, amended. For every credential pool of size N >= 1, consecutive \<open>generate_answer\<close>
  calls that each succeed at their first attempt use one credential each, in pool
  order: from a cursor at \<open>i\<close>, the j-th call (counted from 0) sends
  \<open>api_keys[(i + j) mod N]\<close>, and the shared cursor advances by one modulo N per call; on
  a fresh client N such calls use each credential exactly once. A call that needs
  retries uses one credential per attempt: in general the requests of consecutive
  calls, taken together, go out in rotation order, and the cursor advances by one
  modulo N per request.
\<close>

theorem consecutive_calls_round_robin:
  assumes "cursor_in_range c" and "consecutive_calls hs c = (rs, c')"
  shows "(0 < max_retries c \<and> (\<forall>h\<in>set hs. \<exists>content. h 0 = Response 200 (Inr content)) \<longrightarrow>
            map (\<lambda>r. posts (snd r)) rs =
              map (\<lambda>j. [api_keys c ! nat ((current_key_index c + int j)
                            mod int (length (api_keys c)))]) [0..<length hs]
            \<and> (\<forall>r\<in>set rs. fst r \<noteq> None)
            \<and> current_key_index c' =
                (current_key_index c + int (length hs)) mod int (length (api_keys c)))
       \<and> sent rs = map (\<lambda>j. api_keys c ! nat ((current_key_index c + int j)
                              mod int (length (api_keys c)))) [0..<length (sent rs)]
       \<and> current_key_index c' =
           (current_key_index c + int (length (sent rs))) mod int (length (api_keys c))
       \<and> api_keys c' = api_keys c \<and> length rs = length hs"
proof -
  have "map (\<lambda>r. posts (snd r)) rs =
              map (\<lambda>j. [api_keys c ! nat ((current_key_index c + int j)
                            mod int (length (api_keys c)))]) [0..<length hs]
        \<and> (\<forall>r\<in>set rs. fst r \<noteq> None)
        \<and> current_key_index c' =
            (current_key_index c + int (length hs)) mod int (length (api_keys c))"
    if "0 < max_retries c" "\<forall>h\<in>set hs. \<exists>content. h 0 = Response 200 (Inr content)"
    using consecutive_calls_ok [OF assms(1) that assms(2)] by blast
  then show ?thesis using consecutive_calls_rotation [OF assms] by blast
qed

theorem consecutive_calls_round_robin_witness:
  "cursor_in_range fresh_client
   \<and> consecutive_calls
       [replies [Response 200 (Inr (ustr ''yes''))], replies [Response 200 (Inr (ustr ''no''))]]
       fresh_client
     = ([(Some (ustr ''yes''), [Post (ustr ''k1'')]), (Some (ustr ''no''), [Post (ustr ''k2'')])],
        fresh_client)
   \<and> map (\<lambda>r. posts (snd r))
        [(Some (ustr ''yes''), [Post (ustr ''k1'')]), (Some (ustr ''no''), [Post (ustr ''k2'')])]
     = [[ustr ''k1''], [ustr ''k2'']]
   \<and> sent [(Some (ustr ''yes''), [Post (ustr ''k1'')]), (Some (ustr ''no''), [Post (ustr ''k2'')])]
     = api_keys fresh_client
   \<and> current_key_index fresh_client = (0 + 2) mod 2"
proof -
  let ?h1 = "replies [Response 200 (Inr (ustr ''yes''))]"
  let ?h2 = "replies [Response 200 (Inr (ustr ''no''))]"
  let ?rs = "[(Some (ustr ''yes''), [Post (ustr ''k1'')]), (Some (ustr ''no''), [Post (ustr ''k2'')])]"
  have h: "?h1 0 = Response 200 (Inr (ustr ''yes''))" "?h2 0 = Response 200 (Inr (ustr ''no''))"
    by (simp_all add: replies_def)
  have g1: "generate_answer ?h1 fresh_client
      = (Some (ustr ''yes''), [Post (ustr ''k1'')], fresh_client\<lparr>current_key_index := 1\<rparr>)"
    using generate_answer_first_ok [where http = ?h1, OF fresh_client_fields(4) _ h(1)]
    unfolding fresh_client_fields by (simp add: example_mods strip_answers)
  have g2: "generate_answer ?h2 (fresh_client\<lparr>current_key_index := 1\<rparr>)
      = (Some (ustr ''no''), [Post (ustr ''k2'')], fresh_client)"
    using generate_answer_first_ok [where http = ?h2, OF fresh_client_moved(1) _ h(2)]
    unfolding fresh_client_moved(1-4) by (simp add: example_mods strip_answers fresh_client_moved(5))
  have run: "consecutive_calls [?h1, ?h2] fresh_client = (?rs, fresh_client)"
    by (simp add: g1 g2)
  have ok: "0 < max_retries fresh_client
      \<and> (\<forall>h\<in>set [?h1, ?h2]. \<exists>content. h 0 = Response 200 (Inr content))"
    using h by (simp add: fresh_client_fields)
  from consecutive_calls_round_robin [OF fresh_client_fields(4) run] ok
  have "map (\<lambda>r. posts (snd r)) ?rs = [[ustr ''k1''], [ustr ''k2'']]"
    "current_key_index fresh_client = (0 + 2) mod 2"
    unfolding fresh_client_fields by (simp_all add: numeral_2_eq_2)
  moreover have "sent ?rs = api_keys fresh_client"
    by (simp add: sent_def fresh_client_fields)
  ultimately show ?thesis using fresh_client_fields(4) run by blast
qed

section \<open>Properties of the lexical retriever\<close>

lemma scored_chunks_eq:
  "scored_chunks fl ul q cs = map (entry fl ul q) (matching fl ul q cs)"
  by (induction cs) (simp_all add: Let_def entry_def matching_def)

lemma sorted_sort_reverse: "sorted_wrt (\<lambda>a b. k b \<le> k a) (sort_reverse k xs)"
proof -
  have "sorted (map k (sort_key k (rev xs)))" by (rule sorted_sort_key)
  then have "sorted_wrt (\<lambda>a b. k a \<le> k b) (sort_key k (rev xs))"
    by (simp add: sorted_wrt_map)
  then show ?thesis by (simp add: sort_reverse_def sorted_wrt_rev)
qed

lemma stable_sort_reverse:
  "filter (\<lambda>x. k x = v) (sort_reverse k xs) = filter (\<lambda>x. k x = v) xs"
proof -
  have "filter (\<lambda>x. k x = v) (sort_reverse k xs)
          = rev (filter (\<lambda>x. k x = v) (sort_key k (rev xs)))"
    by (simp add: sort_reverse_def rev_filter)
  also have "\<dots> = rev (filter (\<lambda>x. k x = v) (rev xs))" by (simp only: sort_key_stable)
  also have "\<dots> = filter (\<lambda>x. k x = v) xs" by (simp add: rev_filter)
  finally show ?thesis .
qed

lemma set_sort_reverse: "set (sort_reverse k xs) = set xs"
  by (simp add: sort_reverse_def)

lemma length_sort_reverse: "length (sort_reverse k xs) = length xs"
  by (simp add: sort_reverse_def)

lemma sort_reverse_same_key:
  assumes "\<forall>x\<in>set xs. k x = v"
  shows "sort_reverse k xs = xs"
proof -
  have "filter (\<lambda>x. k x = v) (sort_reverse k xs) = sort_reverse k xs"
    using assms by (intro filter_True) (simp add: set_sort_reverse)
  moreover have "filter (\<lambda>x. k x = v) xs = xs" using assms by (intro filter_True) simp
  ultimately show ?thesis using stable_sort_reverse [of k v xs] by simp
qed

lemma slice_take: "0 \<le> k \<Longrightarrow> slice xs 0 k = take (nat k) xs"
  by (simp add: slice_def adjust_index_def Let_def min_def)

lemma slice_drop_last: "k < 0 \<Longrightarrow> slice xs 0 k = take (length xs - nat (- k)) xs"
proof -
  assume "k < 0"
  then have "nat (max (k + int (length xs)) 0) = length xs - nat (- k)" by linarith
  then show ?thesis using \<open>k < 0\<close> by (simp add: slice_def adjust_index_def Let_def)
qed

text \<open>The search with \<open>top_k\<close> at the number of chunks returns every entry.\<close>

lemma search_all:
  "simple_text_search fl ul cs q (int (length cs)) =
     sort_reverse score (map (entry fl ul q) (matching fl ul q cs))"
proof -
  have "length (matching fl ul q cs) \<le> length cs" by (simp add: matching_def)
  then show ?thesis
    by (simp add: simple_text_search_def scored_chunks_eq slice_take length_sort_reverse
        matching_def sort_reverse_def)
qed

lemma search_top:
  "0 \<le> top_k \<Longrightarrow> simple_text_search fl ul cs q top_k =
     take (nat top_k) (sort_reverse score (map (entry fl ul q) (matching fl ul q cs)))"
  by (simp add: simple_text_search_def scored_chunks_eq slice_take matching_def sort_reverse_def)

lemma search_negative:
  "top_k < 0 \<Longrightarrow> simple_text_search fl ul cs q top_k =
     take (length (matching fl ul q cs) - nat (- top_k))
       (sort_reverse score (map (entry fl ul q) (matching fl ul q cs)))"
  by (simp add: simple_text_search_def scored_chunks_eq slice_drop_last length_sort_reverse
      matching_def sort_reverse_def)

lemma score_entry: "score (entry fl ul q c) = score_chunk fl ul q c"
  by (simp add: entry_def)

lemma filter_map_entry:
  "filter (\<lambda>r. score r = v) (map (entry fl ul q) cs)
     = map (entry fl ul q) (filter (\<lambda>c. score_chunk fl ul q c = v) cs)"
  by (induction cs) (simp_all add: score_entry)

text \<open>Splitting into words, one character at a time.\<close>

lemma split_Nil: "split [] = []"
  by (simp add: split.simps)

lemma split_space: "isspace c \<Longrightarrow> split (c # s) = split s"
  by (simp add: split.simps [of "c # s"] split.simps [of s])

lemma split_word:
  "\<not> isspace c \<Longrightarrow>
     split (c # s) = (c # takeWhile (\<lambda>x. \<not> isspace x) s) # split (dropWhile (\<lambda>x. \<not> isspace x) s)"
  by (simp add: split.simps [of "c # s"])

text \<open>The example chunks and queries, evaluated.\<close>

lemma lower_examples:
  "lower ascii_lower_only (ustr ''a c'') = [97, 32, 99]"
  "lower ascii_lower_only (ustr ''a b'') = [97, 32, 98]"
  "lower ascii_lower_only (ustr ''b'') = [98]"
  "lower ascii_lower_only (ustr ''a'') = [97]"
  unfolding lower_def ustr_def by (simp_all add: ascii_lower_def)

lemma letter_classes: "isspace 32" "\<not> isspace 97" "\<not> isspace 98" "\<not> isspace 99"
  by (simp_all add: isspace_def)

lemma split_examples:
  "split [97, 32, 99] = [[97], [99]]" "split [97, 32, 98] = [[97], [98]]"
  "split [98] = [[98]]" "split [97] = [[97]]"
  by (simp_all add: split_Nil split_space split_word letter_classes)

lemma sublist_examples:
  "\<not> sublist [97, 32, 99] [97, 32, 98 :: nat]" "\<not> sublist [97, 32, 99] [98 :: nat]"
  "sublist [97, 32, 99] [97, 32, 99 :: nat]" "sublist [97] [97 :: nat]"
  "sublist [97] [97, 32, 98 :: nat]"
  by (simp_all add: sublist_code)

lemma score_examples:
  "score_chunk exact ascii_lower_only (ustr ''a c'') (chunk_of 0 ''b'') = 0"
  "score_chunk exact ascii_lower_only (ustr ''a c'') (chunk_of 1 ''a b'') = 1 / 2"
  "score_chunk exact ascii_lower_only (ustr ''a c'') (chunk_of 2 ''a c'') = 3 / 2"
  "score_chunk exact ascii_lower_only (ustr ''a'') (chunk_of 0 ''a'') = 3 / 2"
  "score_chunk exact ascii_lower_only (ustr ''a'') (chunk_of 1 ''a b'') = 3 / 2"
  unfolding score_chunk_def chunk_of_def Let_def
  by (simp_all add: lower_examples split_examples sublist_examples exact_def)

text \<open>The score of every chunk for the empty query: no word to match, the bonus alone.\<close>

lemma score_chunk_empty_query: "score_chunk fl ul [] c = fl (1 / 2)"
  by (simp add: score_chunk_def lower_def split_Nil Let_def)

text \<open>
  C6. The claim: for every \<open>top_k\<close> the result has at most \<open>top_k\<close> entries. The result is
  the slice \<open>[:top_k]\<close> of the sorted list, and for a negative \<open>top_k\<close> that slice drops
  the last entries: with two matching chunks and \<open>top_k = -1\<close> one entry is returned.
\<close>

theorem simple_text_search_negative_top_k:
  "simple_text_search exact ascii_lower_only [chunk_of 0 ''a'', chunk_of 1 ''a b''] (ustr ''a'') (- 1)
     = [entry exact ascii_lower_only (ustr ''a'') (chunk_of 0 ''a'')]
   \<and> - 1 < int (length (simple_text_search exact ascii_lower_only
                          [chunk_of 0 ''a'', chunk_of 1 ''a b''] (ustr ''a'') (- 1)))"
proof -
  let ?cs = "[chunk_of 0 ''a'', chunk_of 1 ''a b'']"
  let ?e = "entry exact ascii_lower_only (ustr ''a'')"
  have m: "matching exact ascii_lower_only (ustr ''a'') ?cs = ?cs"
    by (simp add: matching_def score_examples)
  have "\<forall>x\<in>set (map ?e ?cs). score x = 3 / 2" by (simp add: score_entry score_examples)
  then have s: "sort_reverse score (map ?e ?cs) = map ?e ?cs" by (rule sort_reverse_same_key)
  have "simple_text_search exact ascii_lower_only ?cs (ustr ''a'') (- 1) = [?e (chunk_of 0 ''a'')]"
    using search_negative [where top_k = "- 1" and fl = exact and ul = ascii_lower_only
        and q = "ustr ''a''" and cs = ?cs]
    unfolding m s by simp
  then show ?thesis by simp
qed

text \<open>
  C6, amended. For every query and chunk list, \<open>simple_text_search\<close> leaves out every
  chunk whose score is not positive, sorts the entries of the others by descending
  score, entries of equal score staying in the order of their chunks, and returns the
  slice \<open>[:top_k]\<close> of that list: its first \<open>top_k\<close> entries, so at most \<open>top_k\<close>, for
  every \<open>top_k \<ge> 0\<close>, and all but its last \<open>-top_k\<close> entries for a negative \<open>top_k\<close>.
  The sorted list is what the search returns with \<open>top_k\<close> at the number of chunks.
\<close>

theorem simple_text_search_ranking:
  "set (simple_text_search fl ul cs q (int (length cs))) =
     entry fl ul q ` {c \<in> set cs. 0 < score_chunk fl ul q c}
   \<and> sorted_wrt (\<lambda>a b. score b \<le> score a) (simple_text_search fl ul cs q (int (length cs)))
   \<and> (\<forall>v. filter (\<lambda>r. score r = v) (simple_text_search fl ul cs q (int (length cs)))
            = map (entry fl ul q)
                (filter (\<lambda>c. score_chunk fl ul q c = v) (matching fl ul q cs)))
   \<and> (0 \<le> top_k \<longrightarrow>
        simple_text_search fl ul cs q top_k =
          take (nat top_k) (simple_text_search fl ul cs q (int (length cs)))
        \<and> int (length (simple_text_search fl ul cs q top_k)) \<le> top_k)
   \<and> (top_k < 0 \<longrightarrow>
        simple_text_search fl ul cs q top_k =
          take (length (matching fl ul q cs) - nat (- top_k))
            (simple_text_search fl ul cs q (int (length cs))))"
proof -
  let ?all = "sort_reverse score (map (entry fl ul q) (matching fl ul q cs))"
  have full: "simple_text_search fl ul cs q (int (length cs)) = ?all" by (rule search_all)
  have "set ?all = entry fl ul q ` {c \<in> set cs. 0 < score_chunk fl ul q c}"
    by (auto simp: set_sort_reverse matching_def)
  moreover have "sorted_wrt (\<lambda>a b. score b \<le> score a) ?all" by (rule sorted_sort_reverse)
  moreover have "filter (\<lambda>r. score r = v) ?all
      = map (entry fl ul q) (filter (\<lambda>c. score_chunk fl ul q c = v) (matching fl ul q cs))"
    for v
    by (simp only: stable_sort_reverse filter_map_entry)
  moreover have "simple_text_search fl ul cs q top_k = take (nat top_k) ?all
      \<and> int (length (simple_text_search fl ul cs q top_k)) \<le> top_k" if "0 \<le> top_k"
    using that by (simp add: search_top)
  moreover have "simple_text_search fl ul cs q top_k =
      take (length (matching fl ul q cs) - nat (- top_k)) ?all" if "top_k < 0"
    using that by (rule search_negative)
  ultimately show ?thesis unfolding full by blast
qed

theorem simple_text_search_ranking_witness:
  "(0::int) \<le> 1
   \<and> simple_text_search exact ascii_lower_only
        [chunk_of 0 ''b'', chunk_of 1 ''a b'', chunk_of 2 ''a c''] (ustr ''a c'') 3
     = [entry exact ascii_lower_only (ustr ''a c'') (chunk_of 2 ''a c''),
        entry exact ascii_lower_only (ustr ''a c'') (chunk_of 1 ''a b'')]
   \<and> simple_text_search exact ascii_lower_only
        [chunk_of 0 ''b'', chunk_of 1 ''a b'', chunk_of 2 ''a c''] (ustr ''a c'') 1
     = [entry exact ascii_lower_only (ustr ''a c'') (chunk_of 2 ''a c'')]
   \<and> score (entry exact ascii_lower_only (ustr ''a c'') (chunk_of 2 ''a c'')) = 3 / 2
   \<and> score (entry exact ascii_lower_only (ustr ''a c'') (chunk_of 1 ''a b'')) = 1 / 2"
proof -
  let ?cs = "[chunk_of 0 ''b'', chunk_of 1 ''a b'', chunk_of 2 ''a c'']"
  let ?q = "ustr ''a c''"
  let ?e = "entry exact ascii_lower_only ?q"
  have m: "matching exact ascii_lower_only ?q ?cs = [chunk_of 1 ''a b'', chunk_of 2 ''a c'']"
    by (simp add: matching_def score_examples)
  have s: "sort_reverse score [?e (chunk_of 1 ''a b''), ?e (chunk_of 2 ''a c'')]
             = [?e (chunk_of 2 ''a c''), ?e (chunk_of 1 ''a b'')]"
    by (simp add: sort_reverse_def score_entry score_examples)
  have len: "int (length ?cs) = 3" by simp
  have full: "simple_text_search exact ascii_lower_only ?cs ?q 3
      = [?e (chunk_of 2 ''a c''), ?e (chunk_of 1 ''a b'')]"
    using search_all [of exact ascii_lower_only ?cs ?q] unfolding len m by (simp add: s)
  from simple_text_search_ranking [of exact ascii_lower_only ?cs ?q 1]
  have "simple_text_search exact ascii_lower_only ?cs ?q 1
      = take (nat 1) (simple_text_search exact ascii_lower_only ?cs ?q 3)"
    unfolding len by simp
  then have "simple_text_search exact ascii_lower_only ?cs ?q 1 = [?e (chunk_of 2 ''a c'')]"
    unfolding full by simp
  then show ?thesis using full by (simp add: score_entry score_examples)
qed

text \<open>
  C8. The claim: for the empty query and a non-empty chunk list the result is not
  empty. It is the first \<open>top_k\<close> entries, and with \<open>top_k = 0\<close> these are none.
\<close>

theorem simple_text_search_empty_query_top_0:
  "simple_text_search exact ascii_lower_only [chunk_of 0 ''b'', chunk_of 1 ''a b''] [] 0 = []"
  using search_top [of 0 exact ascii_lower_only "[chunk_of 0 ''b'', chunk_of 1 ''a b'']" "[]"]
  by simp

text \<open>
  C8, amended. For the empty query, a non-empty chunk list and \<open>top_k \<ge> 1\<close>,
  \<open>simple_text_search\<close> does not return an empty result: the empty string is a substring
  of every chunk text, so every chunk receives the bonus of 0.5 and nothing else, and the
  entries of the first \<open>top_k\<close> chunks are returned in the order of the chunks, each with
  score 0.5. The sum \<open>0 + 0.5\<close> is a float, which rounding leaves as it is.
\<close>

theorem simple_text_search_empty_query:
  assumes "fl (1 / 2) = 1 / 2"
  shows "(0 \<le> top_k \<longrightarrow>
            simple_text_search fl ul cs [] top_k =
              map (\<lambda>c. \<lparr>chunk_scored = c, score = 1 / 2, text_scored = text_chunk c\<rparr>)
                (take (nat top_k) cs))
       \<and> (cs \<noteq> [] \<and> 0 < top_k \<longrightarrow> simple_text_search fl ul cs [] top_k \<noteq> [])"
proof -
  let ?e = "\<lambda>c. \<lparr>chunk_scored = c, score = 1 / 2, text_scored = text_chunk c\<rparr>"
  have sc: "score_chunk fl ul [] c = 1 / 2" for c
    by (simp add: score_chunk_empty_query assms)
  have e: "entry fl ul [] = ?e" by (rule ext) (simp add: entry_def sc)
  have m: "matching fl ul [] cs = cs" by (simp add: matching_def sc)
  have "\<forall>x\<in>set (map ?e cs). score x = 1 / 2" by simp
  then have s: "sort_reverse score (map ?e cs) = map ?e cs" by (rule sort_reverse_same_key)
  have top: "simple_text_search fl ul cs [] top_k = map ?e (take (nat top_k) cs)"
    if "0 \<le> top_k"
    using search_top [OF that, of fl ul cs "[]"] unfolding m e s by (simp add: take_map)
  have "simple_text_search fl ul cs [] top_k \<noteq> []" if "cs \<noteq> []" "0 < top_k"
  proof -
    have "0 < nat top_k" using that(2) by simp
    then have "take (nat top_k) cs \<noteq> []" using that(1) by (cases cs) auto
    then show ?thesis using top that(2) by simp
  qed
  then show ?thesis using top by blast
qed

theorem simple_text_search_empty_query_witness:
  "exact (1 / 2) = 1 / 2
   \<and> (0::int) < 3
   \<and> [chunk_of 0 ''b'', chunk_of 1 ''a b''] \<noteq> []
   \<and> simple_text_search exact ascii_lower_only [chunk_of 0 ''b'', chunk_of 1 ''a b''] [] 3
     = [\<lparr>chunk_scored = chunk_of 0 ''b'', score = 1 / 2, text_scored = ustr ''b''\<rparr>,
        \<lparr>chunk_scored = chunk_of 1 ''a b'', score = 1 / 2, text_scored = ustr ''a b''\<rparr>]
   \<and> simple_text_search exact ascii_lower_only [chunk_of 0 ''b'', chunk_of 1 ''a b''] [] 1
     = [\<lparr>chunk_scored = chunk_of 0 ''b'', score = 1 / 2, text_scored = ustr ''b''\<rparr>]"
proof -
  have x: "exact (1 / 2) = 1 / 2" by (simp add: exact_def)
  have t: "text_chunk (chunk_of 0 ''b'') = ustr ''b''" "text_chunk (chunk_of 1 ''a b'') = ustr ''a b''"
    by (simp_all add: chunk_of_def)
  from simple_text_search_empty_query [where fl = exact and top_k = 3
      and ul = ascii_lower_only and cs = "[chunk_of 0 ''b'', chunk_of 1 ''a b'']", OF x]
  have a: "simple_text_search exact ascii_lower_only [chunk_of 0 ''b'', chunk_of 1 ''a b''] [] 3
     = [\<lparr>chunk_scored = chunk_of 0 ''b'', score = 1 / 2, text_scored = ustr ''b''\<rparr>,
        \<lparr>chunk_scored = chunk_of 1 ''a b'', score = 1 / 2, text_scored = ustr ''a b''\<rparr>]"
    by (simp add: t)
  from simple_text_search_empty_query [where fl = exact and top_k = 1
      and ul = ascii_lower_only and cs = "[chunk_of 0 ''b'', chunk_of 1 ''a b'']", OF x]
  have b: "simple_text_search exact ascii_lower_only [chunk_of 0 ''b'', chunk_of 1 ''a b''] [] 1
     = [\<lparr>chunk_scored = chunk_of 0 ''b'', score = 1 / 2, text_scored = ustr ''b''\<rparr>]"
    by (simp add: t)
  from x a b show ?thesis by simp
qed

section \<open>Properties of the pipeline\<close>

lemma process_document_returns:
  "process_document fuel w p content = None \<longleftrightarrow>
     (\<exists>raw_text. extract_text_from_pdf w content = Inr raw_text
        \<and> create_chunks fuel (chunk_size_proc p) (chunk_overlap_proc p)
              (clean_text (alnum_table w) raw_text) = None)"
  by (auto simp: process_document_def Let_def split: sum.splits option.splits)

lemma no_questions_after_content:
  assumes "obtain_content w pdf_path pdf_content = Inr content"
  shows "process_document_and_answer fuel w p pdf_path pdf_content (Some []) =
           map_option (\<lambda>r. ([], snd r)) (process_document fuel w p content)"
  using assms
  by (simp add: process_document_and_answer_def truthy_def Let_def
      split: option.split prod.split)

lemma no_questions_without_content:
  assumes "obtain_content w pdf_path pdf_content = Inl e"
  shows "process_document_and_answer fuel w p pdf_path pdf_content (Some []) =
           Some ([ustr ''Processing failed: '' @ str_exn e], p)"
  using assms by (simp add: process_document_and_answer_def truthy_def Let_def)

text \<open>The example world, evaluated.\<close>

lemma small_world_fields:
  "read_file small_world path = Inl (OSError (ustr ''No such file or directory''))"
  "pdf_reader small_world [37, 80, 68, 70] = Inr (ustr ''ab'')"
  "pdf_reader small_world [0] = Inl (Exception (ustr ''EOF marker not found''))"
  "alnum_table small_world = ascii_alnum_only"
  by (simp_all add: small_world_def)

lemma obtain_content_examples:
  "obtain_content small_world (Some (ustr ''missing.pdf'')) None
     = Inl (OSError (ustr ''No such file or directory''))"
  "obtain_content small_world None None
     = Inl (ValueError (ustr ''Either pdf_path or pdf_content must be provided''))"
  "obtain_content small_world None (Some [37, 80, 68, 70]) = Inr [37, 80, 68, 70]"
  "obtain_content small_world None (Some [0]) = Inr [0]"
  by (simp_all add: obtain_content_def truthy_def small_world_fields ustr_def)

lemma clean_text_ab: "clean_text ascii_alnum_only (ustr ''ab'') = [97, 98]"
proof -
  have u: "ustr ''ab'' = [97, 98]" by (simp add: ustr_def)
  have s1: "sub_runs isspace space [97, 98] = [97, 98]" by (simp add: char_classes)
  have s2: "sub_runs (\<lambda>c. c = newline) newline [97, 98] = [97, 98]" by (simp add: newline_def)
  have s3: "strip [97, 98] = [97, 98]" by (simp add: strip_def char_classes)
  show ?thesis unfolding clean_text_def Let_def u s1 s2 by (simp add: kept_ascii s3)
qed

lemma create_chunks_ab:
  "create_chunks (Suc 0) 1000 100 [97, 98] =
     Some [\<lparr>id_chunk = 0, text_chunk = [97, 98], start_pos = 0, end_pos = 1000,
            length_chunk = 2\<rparr>]"
proof -
  have w: "window_end 1000 [97, 98] 0 = 1000" by (simp add: window_end_def)
  have s: "strip (slice [97, 98] 0 1000) = [97, 98]"
    by (simp add: slice_def adjust_index_def strip_def char_classes)
  show ?thesis
    unfolding create_chunks_def create_chunks_loop.simps Let_def w s by simp
qed

lemma init_fields:
  "chunk_size_proc (SimpleDocumentQAProcessor_init []) = 1000"
  "chunk_overlap_proc (SimpleDocumentQAProcessor_init []) = 100"
  by (simp_all add: SimpleDocumentQAProcessor_init_def)

lemma process_document_examples:
  "process_document (Suc 0) small_world (SimpleDocumentQAProcessor_init []) [37, 80, 68, 70]
     = Some (\<lparr>success_doc = True, message_doc = ustr ''Document processed successfully'',
               chunks_count = 1, total_characters = 2\<rparr>,
             (SimpleDocumentQAProcessor_init [])
               \<lparr>document_chunks :=
                  [\<lparr>id_chunk = 0, text_chunk = [97, 98], start_pos = 0, end_pos = 1000,
                    length_chunk = 2\<rparr>],
                document_text := [97, 98]\<rparr>)"
  "process_document (Suc 0) small_world (SimpleDocumentQAProcessor_init []) [0]
     = Some (\<lparr>success_doc = False,
               message_doc = ustr ''Error processing document: ''
                 @ ustr ''Error extracting text from PDF: '' @ ustr ''EOF marker not found'',
               chunks_count = 0, total_characters = 0\<rparr>,
             SimpleDocumentQAProcessor_init [])"
  unfolding process_document_def extract_text_from_pdf_def small_world_fields
  by (simp_all add: clean_text_ab create_chunks_ab init_fields Let_def)

text \<open>
  C7. The claim: with an empty questions list the pipeline returns an empty answers
  list whatever fails. When the file at \<open>pdf_path\<close> cannot be read, or neither a path nor
  a content is given, the \<open>except\<close> clause returns a list with one message.
\<close>

theorem process_document_and_answer_missing_file:
  "process_document_and_answer (Suc 0) small_world (SimpleDocumentQAProcessor_init [])
     (Some (ustr ''missing.pdf'')) None (Some [])
     = Some ([ustr ''Processing failed: '' @ ustr ''No such file or directory''],
             SimpleDocumentQAProcessor_init [])
   \<and> process_document_and_answer (Suc 0) small_world (SimpleDocumentQAProcessor_init [])
       None None (Some [])
     = Some ([ustr ''Processing failed: ''
                @ ustr ''Either pdf_path or pdf_content must be provided''],
             SimpleDocumentQAProcessor_init [])"
  by (simp add: no_questions_without_content [OF obtain_content_examples(1)]
      no_questions_without_content [OF obtain_content_examples(2)])

text \<open>
  C7, amended. For every document input whose content is obtained (a non-empty
  \<open>pdf_content\<close>, or a \<open>pdf_path\<close> that is read without an exception),
  \<open>process_document_and_answer\<close> with an empty questions list returns an empty answers
  list whenever document processing returns, also when document processing fails; and
  document processing returns unless \<open>create_chunks\<close> does not return on the cleaned
  text. When the content is not obtained (reading \<open>pdf_path\<close> raises, or neither a path
  nor a content is given), the call returns the one-element list with the message
  \<open>Processing failed: ...\<close>. No exception reaches the caller.
\<close>

theorem process_document_and_answer_no_questions:
  "(obtain_content w pdf_path pdf_content = Inl e \<longrightarrow>
      process_document_and_answer fuel w p pdf_path pdf_content (Some []) =
        Some ([ustr ''Processing failed: '' @ str_exn e], p))
   \<and> (obtain_content w pdf_path pdf_content = Inr content \<longrightarrow>
        process_document_and_answer fuel w p pdf_path pdf_content (Some []) =
          map_option (\<lambda>r. ([], snd r)) (process_document fuel w p content))
   \<and> (process_document fuel w p content = None \<longleftrightarrow>
        (\<exists>raw_text. extract_text_from_pdf w content = Inr raw_text
           \<and> create_chunks fuel (chunk_size_proc p) (chunk_overlap_proc p)
                 (clean_text (alnum_table w) raw_text) = None))"
  using no_questions_without_content [of w pdf_path pdf_content e fuel p]
    no_questions_after_content [of w pdf_path pdf_content content fuel p]
    process_document_returns [of fuel w p content]
  by blast

theorem process_document_and_answer_no_questions_witness:
  "obtain_content small_world None (Some [37, 80, 68, 70]) = Inr [37, 80, 68, 70]
   \<and> process_document_and_answer (Suc 0) small_world (SimpleDocumentQAProcessor_init [])
        None (Some [37, 80, 68, 70]) (Some [])
      = Some ([], (SimpleDocumentQAProcessor_init [])
                    \<lparr>document_chunks :=
                       [\<lparr>id_chunk = 0, text_chunk = [97, 98], start_pos = 0, end_pos = 1000,
                         length_chunk = 2\<rparr>],
                     document_text := [97, 98]\<rparr>)
   \<and> obtain_content small_world None (Some [0]) = Inr [0]
   \<and> process_document_and_answer (Suc 0) small_world (SimpleDocumentQAProcessor_init [])
        None (Some [0]) (Some [])
      = Some ([], SimpleDocumentQAProcessor_init [])
   \<and> obtain_content small_world (Some (ustr ''missing.pdf'')) None
      = Inl (OSError (ustr ''No such file or directory''))
   \<and> process_document_and_answer (Suc 0) small_world (SimpleDocumentQAProcessor_init [])
        (Some (ustr ''missing.pdf'')) None (Some [])
      = Some ([ustr ''Processing failed: '' @ ustr ''No such file or directory''],
              SimpleDocumentQAProcessor_init [])"
proof -
  let ?p = "SimpleDocumentQAProcessor_init []"
  from process_document_and_answer_no_questions [where w = small_world and pdf_path = None
      and pdf_content = "Some [37, 80, 68, 70]" and content = "[37, 80, 68, 70]"
      and fuel = "Suc 0" and p = ?p]
  have a: "process_document_and_answer (Suc 0) small_world ?p None (Some [37, 80, 68, 70]) (Some [])
      = Some ([], ?p\<lparr>document_chunks :=
                       [\<lparr>id_chunk = 0, text_chunk = [97, 98], start_pos = 0, end_pos = 1000,
                         length_chunk = 2\<rparr>],
                     document_text := [97, 98]\<rparr>)"
    by (simp add: obtain_content_examples process_document_examples)
  from process_document_and_answer_no_questions [where w = small_world and pdf_path = None
      and pdf_content = "Some [0]" and content = "[0]" and fuel = "Suc 0" and p = ?p]
  have b: "process_document_and_answer (Suc 0) small_world ?p None (Some [0]) (Some [])
      = Some ([], ?p)"
    by (simp add: obtain_content_examples process_document_examples)
  from process_document_and_answer_no_questions [where w = small_world
      and pdf_path = "Some (ustr ''missing.pdf'')" and pdf_content = None
      and e = "OSError (ustr ''No such file or directory'')" and fuel = "Suc 0" and p = ?p]
  have c: "process_document_and_answer (Suc 0) small_world ?p (Some (ustr ''missing.pdf''))
        None (Some [])
      = Some ([ustr ''Processing failed: '' @ ustr ''No such file or directory''], ?p)"
    by (simp add: obtain_content_examples)
  from a b c obtain_content_examples show ?thesis by blast
qed

end
